theory Spec2Isabelle
  imports Main
begin

section \<open>Asynchronous event processing with pthreads (src/unix/uthreads.c)\<close>

text \<open>
  The background manager keeps a table \<open>funcs\<close> of callbacks, a table
  \<open>stale_funcs\<close> of callbacks waiting to be removed, the index \<open>max_func\<close>
  (highest used entry plus one) and the nesting counter \<open>cli_count\<close>.

  A \<open>bg_func\<close> is a function pointer: \<open>NULL\<close> or the address of a function.
  The two tables are C arrays of \<open>MAX_FUNCS\<close> cells, indexed with \<open>int\<close>s: slot \<open>i\<close> of
  an array is the value of the table at \<open>i\<close>, for \<open>0 \<le> i < MAX_FUNCS\<close>.

  Three operations of the file can leave what the C standard defines, in states that
  the calls themselves reach: the scan of \<open>register_func\<close> reads \<open>funcs[MAX_FUNCS]\<close>
  when the table is full, the loop of the driver thread reads
  \<open>stale_funcs[MAX_FUNCS]\<close> when the queue is full, and \<open>cli_count\<close> is an \<open>int\<close> that
  overflows.  Each of these is a \<open>fault\<close>, and an operation that meets one returns
  \<open>Inl\<close> of it: the program has no defined state and no defined return value from
  there on.  The loops that stay below \<open>max_func\<close> or \<open>MAX_FUNCS\<close> by their own
  condition read the table at the index they are given.

  Every operation is modelled as one atomic step on the state (the effect of a call
  that runs alone).  \<open>pthread_cond_signal (&cli_cond)\<close> is visible through the counter
  \<open>cli_cond_signals\<close> of the calls made so far; the outcome of
  \<open>pthread_mutex_trylock (&cli_mutex)\<close> is an argument of the unregistration.
\<close>

datatype bg_func = NULL | Addr nat

abbreviation MAX_FUNCS :: int where
  "MAX_FUNCS \<equiv> 16"

abbreviation INT_MAX :: nat where
  "INT_MAX \<equiv> 2147483647"

text \<open>
  \<open>FuncsOutOfBounds i\<close>: \<open>funcs[i]\<close> is read with \<open>i\<close> outside the array;
  \<open>StaleFuncsOutOfBounds i\<close>: the same for \<open>stale_funcs[i]\<close>;
  \<open>CliCountOverflow\<close>: \<open>cli_count++\<close> at \<open>INT_MAX\<close> or \<open>--cli_count\<close> at \<open>INT_MIN\<close>.
\<close>

datatype fault = FuncsOutOfBounds int | StaleFuncsOutOfBounds int | CliCountOverflow

record bg_state =
  funcs :: "int \<Rightarrow> bg_func"
  stale_funcs :: "int \<Rightarrow> bg_func"
  max_func :: int
  cli_count :: int
  cli_cond_signals :: nat

subsection \<open>The interrupt gate\<close>

text \<open>
  \<open>if (--cli_count == 0) pthread_cond_signal (&cli_cond);\<close>
  The decrement of an \<open>int\<close> that holds \<open>INT_MIN\<close> is undefined.
\<close>

definition bg_man_pthreads_enable_interrupts :: "bg_state \<Rightarrow> fault + bg_state" where
  "bg_man_pthreads_enable_interrupts s =
     (if cli_count s \<le> - int INT_MAX - 1 then Inl CliCountOverflow
      else
        (let s1 = s\<lparr>cli_count := cli_count s - 1\<rparr>
         in if cli_count s1 = 0
            then Inr (s1\<lparr>cli_cond_signals := Suc (cli_cond_signals s1)\<rparr>)
            else Inr s1))"

text \<open>\<open>cli_count++;\<close> The increment of an \<open>int\<close> that holds \<open>INT_MAX\<close> is undefined.\<close>

definition bg_man_pthreads_disable_interrupts :: "bg_state \<Rightarrow> fault + bg_state" where
  "bg_man_pthreads_disable_interrupts s =
     (if int INT_MAX \<le> cli_count s then Inl CliCountOverflow
      else Inr (s\<lparr>cli_count := cli_count s + 1\<rparr>))"


subsection \<open>Removing a callback\<close>

text \<open>
  \<open>for (i = 0; i < max_func && funcs[i] != f; i++);\<close>
  The value of \<open>i\<close> after the loop, started at \<open>i\<close>.
\<close>

function find_func :: "(int \<Rightarrow> bg_func) \<Rightarrow> int \<Rightarrow> bg_func \<Rightarrow> int \<Rightarrow> int" where
  "find_func fs mx f i = (if i < mx \<and> fs i \<noteq> f then find_func fs mx f (i + 1) else i)"
  by pat_completeness auto
termination
  by (relation "measure (\<lambda>(fs, mx, f, i). nat (mx - i))") auto

declare find_func.simps [simp del]

text \<open>
  \<open>do { max_func--; } while ((max_func > 0) && !funcs[max_func-1]);\<close>
  The value of \<open>max_func\<close> after the loop.
\<close>

function shrink_max_func :: "(int \<Rightarrow> bg_func) \<Rightarrow> int \<Rightarrow> int" where
  "shrink_max_func fs mx =
     (let mx1 = mx - 1
      in if mx1 > 0 \<and> fs (mx1 - 1) = NULL then shrink_max_func fs mx1 else mx1)"
  by pat_completeness auto
termination
  by (relation "measure (\<lambda>(fs, mx). nat mx)") auto

declare shrink_max_func.simps [simp del]

definition really_unregister_func :: "bg_func \<Rightarrow> bg_state \<Rightarrow> int \<times> bg_state" where
  "really_unregister_func f s =
     (let i = find_func (funcs s) (max_func s) f 0
      in if i = max_func s then (- 1, s)
         else
           (let s1 = s\<lparr>funcs := (funcs s)(i := NULL)\<rparr>
            in if i + 1 = max_func s1
               then (0, s1\<lparr>max_func := shrink_max_func (funcs s1) (max_func s1)\<rparr>)
               else (0, s1)))"

subsection \<open>Initialisation\<close>

text \<open>
  \<open>for (i = 0; i < MAX_FUNCS; i++) funcs[i] = stale_funcs[i] = NULL;\<close>
  then \<open>max_func = 0; cli_count = 0;\<close>.  The mutexes, the condition variable and the
  thread have no state in this model.
\<close>

function init_loop :: "int \<Rightarrow> bg_state \<Rightarrow> bg_state" where
  "init_loop i s =
     (if i < MAX_FUNCS
      then init_loop (i + 1)
             (s\<lparr>funcs := (funcs s)(i := NULL), stale_funcs := (stale_funcs s)(i := NULL)\<rparr>)
      else s)"
  by pat_completeness auto
termination
  by (relation "measure (\<lambda>(i, s). nat (MAX_FUNCS - i))") auto

declare init_loop.simps [simp del]

definition bg_man_pthreads_init :: "bg_state \<Rightarrow> bg_state" where
  "bg_man_pthreads_init s = (init_loop 0 s)\<lparr>max_func := 0, cli_count := 0\<rparr>"

subsection \<open>Registering a callback\<close>

text \<open>
  \<open>for (i = 0; funcs[i] && i < MAX_FUNCS; i++);\<close>
  The condition reads \<open>funcs[i]\<close> before it compares \<open>i\<close> with \<open>MAX_FUNCS\<close>: with
  \<open>i\<close> outside the array the read is a fault.  Otherwise the result is the value of
  \<open>i\<close> after the loop.
\<close>

function first_free :: "(int \<Rightarrow> bg_func) \<Rightarrow> int \<Rightarrow> fault + int" where
  "first_free fs i =
     (if 0 \<le> i \<and> i < MAX_FUNCS
      then (if fs i \<noteq> NULL \<and> i < MAX_FUNCS then first_free fs (i + 1) else Inr i)
      else Inl (FuncsOutOfBounds i))"
  by pat_completeness auto
termination
  by (relation "measure (\<lambda>(fs, i). nat (MAX_FUNCS - i))") auto

declare first_free.simps [simp del]

text \<open>
  \<open>disable_interrupts ()\<close>, the scan, then \<open>ret = -1\<close> if \<open>i == MAX_FUNCS\<close> and
  otherwise \<open>funcs[i] = f; if (i == max_func) max_func++;\<close>, then
  \<open>enable_interrupts ()\<close> and \<open>return ret\<close>.
\<close>

definition bg_man_pthreads_register_func ::
    "bg_func \<Rightarrow> bg_state \<Rightarrow> fault + int \<times> bg_state" where
  "bg_man_pthreads_register_func f s =
     (case bg_man_pthreads_disable_interrupts s of
        Inl e \<Rightarrow> Inl e
      | Inr s1 \<Rightarrow>
          (case first_free (funcs s1) 0 of
             Inl e \<Rightarrow> Inl e
           | Inr i \<Rightarrow>
               (let (ret, s3) =
                      (if i = MAX_FUNCS then (- 1, s1)
                       else
                         (let s2 = s1\<lparr>funcs := (funcs s1)(i := f)\<rparr>
                          in (0, if i = max_func s2 then s2\<lparr>max_func := max_func s2 + 1\<rparr>
                                 else s2)))
                in case bg_man_pthreads_enable_interrupts s3 of
                     Inl e \<Rightarrow> Inl e
                   | Inr s4 \<Rightarrow> Inr (ret, s4))))"

subsection \<open>Unregistering a callback\<close>

text \<open>
  \<open>for (i = 0; i < MAX_FUNCS; i++) { if (!stale_funcs[i]) { stale_funcs[i] = f; break; } }\<close>
  The table \<open>stale_funcs\<close> after the loop, started at \<open>i\<close>.
\<close>

function stale_insert :: "(int \<Rightarrow> bg_func) \<Rightarrow> bg_func \<Rightarrow> int \<Rightarrow> (int \<Rightarrow> bg_func)" where
  "stale_insert sf f i =
     (if i < MAX_FUNCS
      then (if sf i = NULL then sf(i := f) else stale_insert sf f (i + 1))
      else sf)"
  by pat_completeness auto
termination
  by (relation "measure (\<lambda>(sf, f, i). nat (MAX_FUNCS - i))") auto

declare stale_insert.simps [simp del]

text \<open>
  \<open>busy\<close> says that \<open>pthread_mutex_trylock (&cli_mutex)\<close> returned \<open>EBUSY\<close>: the
  request is then queued in \<open>stale_funcs\<close>; otherwise the callback is removed at once.
\<close>

definition bg_man_pthreads_unregister_func ::
    "bool \<Rightarrow> bg_func \<Rightarrow> bg_state \<Rightarrow> int \<times> bg_state" where
  "bg_man_pthreads_unregister_func busy f s =
     (if busy
      then
        (let i = find_func (funcs s) (max_func s) f 0
         in if i = max_func s then (- 1, s)
            else (0, s\<lparr>stale_funcs := stale_insert (stale_funcs s) f 0\<rparr>))
      else really_unregister_func f s)"

subsection \<open>The driver thread\<close>

text \<open>
  The thread function never returns; two of its loops are modelled.  The callbacks
  themselves (\<open>funcs[n](1)\<close>) are code of the callers and are not modelled.

  Removing the stale functions:
  \<open>for (n = 0; stale_funcs[n]; n++) { really_unregister_func (stale_funcs[n]); stale_funcs[n] = NULL; }\<close>
  Nothing but an empty cell stops the loop: with \<open>n\<close> outside the array the read of
  \<open>stale_funcs[n]\<close> is a fault.
\<close>

function reap_loop :: "int \<Rightarrow> bg_state \<Rightarrow> fault + bg_state" where
  "reap_loop n s =
     (if 0 \<le> n \<and> n < MAX_FUNCS
      then
        (if stale_funcs s n \<noteq> NULL
         then
           (let s1 = snd (really_unregister_func (stale_funcs s n) s);
                s2 = s1\<lparr>stale_funcs := (stale_funcs s1)(n := NULL)\<rparr>
            in reap_loop (n + 1) s2)
         else Inr s)
      else Inl (StaleFuncsOutOfBounds n))"
  by pat_completeness auto
termination
  by (relation "measure (\<lambda>(n, s). nat (MAX_FUNCS - n))") auto

declare reap_loop.simps [simp del]

definition remove_stale_funcs :: "bg_state \<Rightarrow> fault + bg_state" where
  "remove_stale_funcs s = reap_loop 0 s"

text \<open>
  Converting the elapsed microseconds into ticks:
  \<open>while (interval) { i = MIN (interval, INT_MAX/(TIMERS_PER_SECOND/100)); interval -= i;
     i = i * (TIMERS_PER_SECOND/100) / 10000L; ... }\<close>
  \<open>interval\<close> and \<open>i\<close> are \<open>unsigned long\<close>.  \<open>TIMERS_PER_SECOND\<close> is defined in a
  header that is not part of the file, so it is the parameter \<open>tps\<close>.  The result is
  the list of the values \<open>i\<close> has at the end of line 88, one for each turn of the loop;
  it is \<open>None\<close> when the loop never ends.
\<close>

partial_function (option) interval_loop :: "nat \<Rightarrow> nat \<Rightarrow> nat list \<Rightarrow> nat list option" where
  "interval_loop tps interval ticks =
     (if interval \<noteq> 0
      then
        (let i = min interval (INT_MAX div (tps div 100));
             interval1 = interval - i;
             i1 = i * (tps div 100) div 10000
         in interval_loop tps interval1 (ticks @ [i1]))
      else Some ticks)"

declare interval_loop.simps [code]

text \<open>
  \<open>INT_MAX/(TIMERS_PER_SECOND/100)\<close> divides by zero when \<open>TIMERS_PER_SECOND < 100\<close>:
  there is no result then.
\<close>

definition tick_batches :: "nat \<Rightarrow> nat \<Rightarrow> nat list option" where
  "tick_batches tps interval =
     (if tps div 100 = 0 then None else interval_loop tps interval [])"

text \<open>
  The outer loop measures one interval at each turn.  \<open>sample_ticks tps xs\<close> is the
  number of ticks computed for the measured intervals \<open>xs\<close>, all their batches added.
\<close>

fun sample_ticks :: "nat \<Rightarrow> nat list \<Rightarrow> nat option" where
  "sample_ticks tps [] = Some 0"
| "sample_ticks tps (x # xs) =
     (case tick_batches tps x of
        None \<Rightarrow> None
      | Some ts \<Rightarrow>
          (case sample_ticks tps xs of
             None \<Rightarrow> None
           | Some n \<Rightarrow> Some (sum_list ts + n)))"

text \<open>The number of turns of the inner loop over the measured intervals \<open>xs\<close>.\<close>

fun sample_chunks :: "nat \<Rightarrow> nat list \<Rightarrow> nat option" where
  "sample_chunks tps [] = Some 0"
| "sample_chunks tps (x # xs) =
     (case tick_batches tps x of
        None \<Rightarrow> None
      | Some ts \<Rightarrow>
          (case sample_chunks tps xs of
             None \<Rightarrow> None
           | Some n \<Rightarrow> Some (length ts + n)))"

text \<open>
  The expression of line 88, \<open>i * (TIMERS_PER_SECOND/100) / 10000L\<close>, for a whole
  duration: the ticks of \<open>us\<close> microseconds when nothing is cut into chunks.
\<close>

definition ticks_of :: "nat \<Rightarrow> nat \<Rightarrow> nat" where
  "ticks_of tps us = us * (tps div 100) div 10000"

subsection \<open>Sequences of calls\<close>

datatype call = Register bg_func | Unregister bool bg_func | Enable | Disable

text \<open>The state after a call, or the fault the call meets.\<close>

fun exec_call :: "call \<Rightarrow> bg_state \<Rightarrow> fault + bg_state" where
  "exec_call (Register f) s =
     (case bg_man_pthreads_register_func f s of Inl e \<Rightarrow> Inl e | Inr (r, s1) \<Rightarrow> Inr s1)"
| "exec_call (Unregister busy f) s = Inr (snd (bg_man_pthreads_unregister_func busy f s))"
| "exec_call Enable s = bg_man_pthreads_enable_interrupts s"
| "exec_call Disable s = bg_man_pthreads_disable_interrupts s"

text \<open>The calls of a list, from left to right, up to the first fault.\<close>

fun exec_calls :: "call list \<Rightarrow> bg_state \<Rightarrow> fault + bg_state" where
  "exec_calls [] s = Inr s"
| "exec_calls (c # cs) s =
     (case exec_call c s of Inl e \<Rightarrow> Inl e | Inr s1 \<Rightarrow> exec_calls cs s1)"

text \<open>Registering the callbacks of a list one after the other, with the return values.\<close>

fun register_all :: "bg_func list \<Rightarrow> bg_state \<Rightarrow> fault + int list \<times> bg_state" where
  "register_all [] s = Inr ([], s)"
| "register_all (f # fs) s =
     (case bg_man_pthreads_register_func f s of
        Inl e \<Rightarrow> Inl e
      | Inr (r, s1) \<Rightarrow>
          (case register_all fs s1 of
             Inl e \<Rightarrow> Inl e
           | Inr (rs, s2) \<Rightarrow> Inr (r # rs, s2)))"

subsection \<open>Properties of the state\<close>

text \<open>\<open>max_func\<close> is within the table and every slot from \<open>max_func\<close> on is empty.\<close>

definition registry_inv :: "bg_state \<Rightarrow> bool" where
  "registry_inv s \<longleftrightarrow>
     0 \<le> max_func s \<and> max_func s \<le> MAX_FUNCS
     \<and> (\<forall>i\<in>{max_func s..<MAX_FUNCS}. funcs s i = NULL)"

text \<open>No callback is in two slots of \<open>funcs\<close>.\<close>

definition no_dup :: "bg_state \<Rightarrow> bool" where
  "no_dup s \<longleftrightarrow>
     (\<forall>i\<in>{0..<MAX_FUNCS}. \<forall>j\<in>{0..<MAX_FUNCS}.
        funcs s i \<noteq> NULL \<and> funcs s i = funcs s j \<longrightarrow> i = j)"

text \<open>\<open>f\<close> is in a slot of \<open>funcs\<close>.\<close>

definition is_registered :: "bg_func \<Rightarrow> bg_state \<Rightarrow> bool" where
  "is_registered f s \<longleftrightarrow> (\<exists>i\<in>{0..<MAX_FUNCS}. funcs s i = f)"

text \<open>
  \<open>really_unregister_func\<close> called for the callbacks of a list, one after the other, the
  return values ignored.
\<close>

definition unregister_list :: "bg_func list \<Rightarrow> bg_state \<Rightarrow> bg_state" where
  "unregister_list fs s = foldl (\<lambda>t f. snd (really_unregister_func f t)) s fs"

text \<open>
  Every \<open>Register\<close> of the list is called with a callback that is in no slot of the
  table at that moment (or with \<open>NULL\<close>).
\<close>

fun fresh_calls :: "call list \<Rightarrow> bg_state \<Rightarrow> bool" where
  "fresh_calls [] s \<longleftrightarrow> True"
| "fresh_calls (Register f # cs) s \<longleftrightarrow>
     (f = NULL \<or> \<not> is_registered f s)
     \<and> (case exec_call (Register f) s of Inl e \<Rightarrow> True | Inr s1 \<Rightarrow> fresh_calls cs s1)"
| "fresh_calls (c # cs) s \<longleftrightarrow>
     (case exec_call c s of Inl e \<Rightarrow> True | Inr s1 \<Rightarrow> fresh_calls cs s1)"

text \<open>The occupied slots of \<open>stale_funcs\<close> come first: no slot follows an empty one.\<close>

definition stale_inv :: "bg_state \<Rightarrow> bool" where
  "stale_inv s \<longleftrightarrow>
     (\<forall>i\<in>{0..<MAX_FUNCS}. \<forall>j\<in>{i<..<MAX_FUNCS}.
        stale_funcs s i = NULL \<longrightarrow> stale_funcs s j = NULL)"

text \<open>A state for the examples: both tables empty, every other cell \<open>NULL\<close>.\<close>

definition zero_state :: bg_state where
  "zero_state =
     \<lparr>funcs = (\<lambda>_. NULL), stale_funcs = (\<lambda>_. NULL), max_func = 0,
      cli_count = 0, cli_cond_signals = 0\<rparr>"

text \<open>
  A table with a gap: callbacks in the slots 0 and 3, \<open>max_func = 4\<close>; and a table
  whose 16 slots all hold a callback.
\<close>

definition gap_state :: bg_state where
  "gap_state =
     zero_state\<lparr>funcs := (\<lambda>i. if i = 0 then Addr 1 else if i = 3 then Addr 2 else NULL),
       max_func := 4\<rparr>"

definition full_state :: bg_state where
  "full_state =
     zero_state\<lparr>funcs := (\<lambda>i. if 0 \<le> i \<and> i < MAX_FUNCS then Addr (nat i + 1) else NULL),
       max_func := MAX_FUNCS\<rparr>"

text \<open>The table with the gap, and a queue \<open>stale_funcs\<close> whose 16 slots are occupied.\<close>

definition stale_full_state :: bg_state where
  "stale_full_state =
     gap_state\<lparr>stale_funcs := (\<lambda>i. if 0 \<le> i \<and> i < MAX_FUNCS then Addr 2 else NULL)\<rparr>"

text \<open>The table with the gap, and two requests in the queue: one for the callback of
  slot 3 and one for a callback that is not in the table.\<close>

definition stale_two_state :: bg_state where
  "stale_two_state =
     gap_state\<lparr>stale_funcs := (\<lambda>i. if i = 0 then Addr 2 else if i = 1 then Addr 9 else NULL)\<rparr>"

section \<open>The properties of the state, spelled out\<close>

lemma registry_inv_iff:
  "registry_inv s \<longleftrightarrow>
     0 \<le> max_func s \<and> max_func s \<le> MAX_FUNCS
     \<and> (\<forall>i. max_func s \<le> i \<and> i < MAX_FUNCS \<longrightarrow> funcs s i = NULL)"
  by (auto simp: registry_inv_def)

lemma no_dup_iff:
  "no_dup s \<longleftrightarrow>
     (\<forall>i j. 0 \<le> i \<and> i < MAX_FUNCS \<and> 0 \<le> j \<and> j < MAX_FUNCS
        \<and> funcs s i \<noteq> NULL \<and> funcs s i = funcs s j \<longrightarrow> i = j)"
  unfolding no_dup_def Ball_def atLeastLessThan_iff by blast

lemma is_registered_iff:
  "is_registered f s \<longleftrightarrow> (\<exists>i. 0 \<le> i \<and> i < MAX_FUNCS \<and> funcs s i = f)"
  by (auto simp: is_registered_def)

lemma stale_inv_iff:
  "stale_inv s \<longleftrightarrow>
     (\<forall>i j. 0 \<le> i \<and> i < j \<and> j < MAX_FUNCS \<and> stale_funcs s i = NULL
        \<longrightarrow> stale_funcs s j = NULL)"
  unfolding stale_inv_def Ball_def atLeastLessThan_iff greaterThanLessThan_iff
  by (meson less_trans)

section \<open>The loops\<close>

text \<open>What each loop of the file computes, by induction along the loop.\<close>

lemma find_func_bounds:
  "i \<le> mx \<Longrightarrow> i \<le> find_func fs mx f i \<and> find_func fs mx f i \<le> mx"
proof (induction fs mx f i rule: find_func.induct)
  case (1 fs mx f i)
  then show ?case
    by (subst (1 2) find_func.simps) auto
qed

lemma find_func_before:
  "i \<le> j \<Longrightarrow> j < find_func fs mx f i \<Longrightarrow> fs j \<noteq> f"
proof (induction fs mx f i rule: find_func.induct)
  case (1 fs mx f i)
  show ?case
  proof (cases "i < mx \<and> fs i \<noteq> f")
    case True
    with "1.prems" have "j < find_func fs mx f (i + 1)"
      by (subst (asm) find_func.simps) simp
    with True "1.IH" "1.prems"(1) show ?thesis
      by (cases "j = i") auto
  next
    case False
    with "1.prems" show ?thesis
      by (subst (asm) find_func.simps) simp
  qed
qed

lemma find_func_at:
  "find_func fs mx f i < mx \<Longrightarrow> fs (find_func fs mx f i) = f"
proof (induction fs mx f i rule: find_func.induct)
  case (1 fs mx f i)
  show ?case
  proof (cases "i < mx \<and> fs i \<noteq> f")
    case True
    then have e: "find_func fs mx f i = find_func fs mx f (i + 1)"
      by (subst find_func.simps) simp
    with True "1.IH" "1.prems" show ?thesis by simp
  next
    case False
    then have e: "find_func fs mx f i = i"
      by (subst find_func.simps) auto
    with False "1.prems" show ?thesis by auto
  qed
qed

lemma find_func_first:
  "i \<le> k \<Longrightarrow> k < mx \<Longrightarrow> fs k = f \<Longrightarrow> \<forall>j. i \<le> j \<and> j < k \<longrightarrow> fs j \<noteq> f
     \<Longrightarrow> find_func fs mx f i = k"
proof (induction fs mx f i rule: find_func.induct)
  case (1 fs mx f i)
  show ?case
  proof (cases "i = k")
    case True
    with "1.prems" show ?thesis by (subst find_func.simps) simp
  next
    case False
    with "1.prems" have c: "i < mx \<and> fs i \<noteq> f" by auto
    then have "find_func fs mx f i = find_func fs mx f (i + 1)"
      by (subst find_func.simps) simp
    also have "\<dots> = k"
      using c False "1.prems" by (intro "1.IH") auto
    finally show ?thesis .
  qed
qed

lemma find_func_none:
  "i \<le> mx \<Longrightarrow> \<forall>j. i \<le> j \<and> j < mx \<longrightarrow> fs j \<noteq> f \<Longrightarrow> find_func fs mx f i = mx"
proof (induction fs mx f i rule: find_func.induct)
  case (1 fs mx f i)
  show ?case
  proof (cases "i < mx")
    case True
    with "1.prems" have c: "i < mx \<and> fs i \<noteq> f" by auto
    then have "find_func fs mx f i = find_func fs mx f (i + 1)"
      by (subst find_func.simps) simp
    also have "\<dots> = mx"
      using c "1.prems" by (intro "1.IH") auto
    finally show ?thesis .
  next
    case False
    with "1.prems" show ?thesis by (subst find_func.simps) simp
  qed
qed

lemma shrink_max_func_bounds:
  "1 \<le> mx \<Longrightarrow> 0 \<le> shrink_max_func fs mx \<and> shrink_max_func fs mx < mx"
proof (induction fs mx rule: shrink_max_func.induct)
  case (1 fs mx)
  show ?case
  proof (cases "mx - 1 > 0 \<and> fs (mx - 1 - 1) = NULL")
    case True
    then have "shrink_max_func fs mx = shrink_max_func fs (mx - 1)"
      by (subst shrink_max_func.simps) (simp add: Let_def)
    with True "1.IH" [of "mx - 1"] show ?thesis by simp
  next
    case False
    then have "shrink_max_func fs mx = mx - 1"
      by (subst shrink_max_func.simps) (auto simp add: Let_def)
    with "1.prems" show ?thesis by simp
  qed
qed

lemma shrink_max_func_empty:
  "shrink_max_func fs mx \<le> j \<Longrightarrow> j < mx - 1 \<Longrightarrow> fs j = NULL"
proof (induction fs mx rule: shrink_max_func.induct)
  case (1 fs mx)
  show ?case
  proof (cases "mx - 1 > 0 \<and> fs (mx - 1 - 1) = NULL")
    case True
    then have e: "shrink_max_func fs mx = shrink_max_func fs (mx - 1)"
      by (subst shrink_max_func.simps) (simp add: Let_def)
    show ?thesis
    proof (cases "j = mx - 1 - 1")
      case True
      with \<open>mx - 1 > 0 \<and> fs (mx - 1 - 1) = NULL\<close> show ?thesis by simp
    next
      case False
      with True e "1.IH" [of "mx - 1"] "1.prems" show ?thesis by simp
    qed
  next
    case False
    then have "shrink_max_func fs mx = mx - 1"
      by (subst shrink_max_func.simps) (auto simp add: Let_def)
    with "1.prems" show ?thesis by simp
  qed
qed

lemma shrink_max_func_stop:
  "1 \<le> mx \<Longrightarrow> shrink_max_func fs mx = 0 \<or> fs (shrink_max_func fs mx - 1) \<noteq> NULL"
proof (induction fs mx rule: shrink_max_func.induct)
  case (1 fs mx)
  show ?case
  proof (cases "mx - 1 > 0 \<and> fs (mx - 1 - 1) = NULL")
    case True
    then have e: "shrink_max_func fs mx = shrink_max_func fs (mx - 1)"
      by (subst shrink_max_func.simps) (simp add: Let_def)
    with True "1.IH" [of "mx - 1"] show ?thesis by simp
  next
    case False
    then have "shrink_max_func fs mx = mx - 1"
      by (subst shrink_max_func.simps) (auto simp add: Let_def)
    with False "1.prems" show ?thesis by auto
  qed
qed

lemma stale_insert_at:
  "i \<le> k \<Longrightarrow> k < MAX_FUNCS \<Longrightarrow> sf k = NULL \<Longrightarrow> \<forall>j. i \<le> j \<and> j < k \<longrightarrow> sf j \<noteq> NULL
     \<Longrightarrow> stale_insert sf f i = sf(k := f)"
proof (induction sf f i rule: stale_insert.induct)
  case (1 sf f i)
  show ?case
  proof (cases "i = k")
    case True
    with "1.prems" show ?thesis by (subst stale_insert.simps) simp
  next
    case False
    with "1.prems" have c: "i < MAX_FUNCS \<and> sf i \<noteq> NULL" by auto
    then have "stale_insert sf f i = stale_insert sf f (i + 1)"
      by (subst stale_insert.simps) simp
    also have "\<dots> = sf(k := f)"
      using c False "1.prems" by (intro "1.IH") auto
    finally show ?thesis .
  qed
qed

lemma stale_insert_full:
  "\<forall>j. i \<le> j \<and> j < MAX_FUNCS \<longrightarrow> sf j \<noteq> NULL \<Longrightarrow> stale_insert sf f i = sf"
proof (induction sf f i rule: stale_insert.induct)
  case (1 sf f i)
  show ?case
  proof (cases "i < MAX_FUNCS")
    case True
    with "1.prems" have c: "i < MAX_FUNCS \<and> sf i \<noteq> NULL" by auto
    then have "stale_insert sf f i = stale_insert sf f (i + 1)"
      by (subst stale_insert.simps) simp
    also have "\<dots> = sf"
      using c "1.prems" by (intro "1.IH") auto
    finally show ?thesis .
  next
    case False
    then show ?thesis by (subst stale_insert.simps) simp
  qed
qed

lemma init_loop_eq:
  "init_loop i s =
     s\<lparr>funcs := (\<lambda>j. if i \<le> j \<and> j < MAX_FUNCS then NULL else funcs s j),
       stale_funcs := (\<lambda>j. if i \<le> j \<and> j < MAX_FUNCS then NULL else stale_funcs s j)\<rparr>"
proof (induction i s rule: init_loop.induct)
  case (1 i s)
  show ?case
  proof (cases "i < MAX_FUNCS")
    case True
    then show ?thesis
      by (subst init_loop.simps) (auto simp: "1.IH" fun_eq_iff)
  next
    case False
    then have "(\<lambda>j. if i \<le> j \<and> j < MAX_FUNCS then NULL else funcs s j) = funcs s"
      and "(\<lambda>j. if i \<le> j \<and> j < MAX_FUNCS then NULL else stale_funcs s j) = stale_funcs s"
      by (auto simp: fun_eq_iff)
    with False show ?thesis
      by (subst init_loop.simps) simp
  qed
qed

section \<open>The scan for an empty slot\<close>

lemma first_free_at:
  "0 \<le> i \<Longrightarrow> i \<le> k \<Longrightarrow> k < MAX_FUNCS \<Longrightarrow> fs k = NULL
     \<Longrightarrow> \<forall>j. i \<le> j \<and> j < k \<longrightarrow> fs j \<noteq> NULL
     \<Longrightarrow> first_free fs i = Inr k"
proof (induction fs i rule: first_free.induct)
  case (1 fs i)
  show ?case
  proof (cases "i = k")
    case True
    with "1.prems" show ?thesis by (subst first_free.simps) simp
  next
    case False
    with "1.prems" have c: "0 \<le> i \<and> i < MAX_FUNCS" "fs i \<noteq> NULL \<and> i < MAX_FUNCS" by auto
    then have "first_free fs i = first_free fs (i + 1)"
      by (subst first_free.simps) simp
    also have "\<dots> = Inr k"
      using c False "1.prems" by (intro "1.IH") auto
    finally show ?thesis .
  qed
qed

text \<open>With every slot from \<open>i\<close> on occupied, the scan reads \<open>funcs[MAX_FUNCS]\<close>.\<close>

lemma first_free_full:
  "0 \<le> i \<Longrightarrow> i \<le> MAX_FUNCS \<Longrightarrow> \<forall>j. i \<le> j \<and> j < MAX_FUNCS \<longrightarrow> fs j \<noteq> NULL
     \<Longrightarrow> first_free fs i = Inl (FuncsOutOfBounds MAX_FUNCS)"
proof (induction fs i rule: first_free.induct)
  case (1 fs i)
  show ?case
  proof (cases "i < MAX_FUNCS")
    case True
    with "1.prems" have c: "0 \<le> i \<and> i < MAX_FUNCS" "fs i \<noteq> NULL \<and> i < MAX_FUNCS" by auto
    then have "first_free fs i = first_free fs (i + 1)"
      by (subst first_free.simps) simp
    also have "\<dots> = Inl (FuncsOutOfBounds MAX_FUNCS)"
      using c "1.prems" by (intro "1.IH") auto
    finally show ?thesis .
  next
    case False
    with "1.prems" have "i = MAX_FUNCS" by simp
    then show ?thesis by (subst first_free.simps) simp
  qed
qed

text \<open>
  A scan that ends without a fault ends below \<open>MAX_FUNCS\<close>: the test \<open>i == MAX_FUNCS\<close>
  that follows the loop never holds in a defined run.
\<close>

lemma first_free_below:
  "first_free fs i = Inr k \<Longrightarrow> 0 \<le> k \<and> k < MAX_FUNCS"
proof (induction fs i rule: first_free.induct)
  case (1 fs i)
  show ?case
  proof (cases "0 \<le> i \<and> i < MAX_FUNCS")
    case False
    with "1.prems" show ?thesis by (subst (asm) first_free.simps) simp
  next
    case b: True
    show ?thesis
    proof (cases "fs i \<noteq> NULL")
      case True
      with b "1.prems" have "first_free fs (i + 1) = Inr k"
        by (subst (asm) first_free.simps) simp
      with b True show ?thesis by (intro "1.IH") auto
    next
      case False
      with b "1.prems" have "k = i"
        by (subst (asm) first_free.simps) simp
      with b show ?thesis by simp
    qed
  qed
qed

text \<open>A table with an empty slot has a first empty slot.\<close>

lemma first_empty_slot:
  fixes fs :: "int \<Rightarrow> bg_func"
  assumes "0 \<le> i" and "i < MAX_FUNCS" and "fs i = NULL"
  shows "\<exists>k. 0 \<le> k \<and> k < MAX_FUNCS \<and> fs k = NULL \<and> (\<forall>j. 0 \<le> j \<and> j < k \<longrightarrow> fs j \<noteq> NULL)"
proof -
  let ?k = "find_func fs MAX_FUNCS NULL 0"
  have b: "0 \<le> ?k \<and> ?k \<le> MAX_FUNCS"
    by (intro find_func_bounds) simp
  have n: "\<forall>j. 0 \<le> j \<and> j < ?k \<longrightarrow> fs j \<noteq> NULL"
    using find_func_before [of 0 _ fs MAX_FUNCS NULL] by blast
  with assms have "?k \<le> i"
    by (meson not_less)
  with assms(2) have "?k < MAX_FUNCS" by simp
  then have "fs ?k = NULL" by (rule find_func_at)
  with b n \<open>?k < MAX_FUNCS\<close> show ?thesis by blast
qed

section \<open>The interrupt gate counts\<close>

lemma disable_defined:
  "cli_count s < int INT_MAX \<Longrightarrow>
     bg_man_pthreads_disable_interrupts s = Inr (s\<lparr>cli_count := cli_count s + 1\<rparr>)"
  by (simp add: bg_man_pthreads_disable_interrupts_def)

lemma disable_overflow:
  "int INT_MAX \<le> cli_count s \<Longrightarrow> bg_man_pthreads_disable_interrupts s = Inl CliCountOverflow"
  by (simp add: bg_man_pthreads_disable_interrupts_def)

lemma enable_defined:
  "- int INT_MAX - 1 < cli_count s \<Longrightarrow>
     bg_man_pthreads_enable_interrupts s =
       Inr (s\<lparr>cli_count := cli_count s - 1,
              cli_cond_signals :=
                (if cli_count s = 1 then Suc (cli_cond_signals s) else cli_cond_signals s)\<rparr>)"
  by (simp add: bg_man_pthreads_enable_interrupts_def Let_def)






section \<open>Removing a callback at once\<close>

lemma really_unregister_func_absent:
  assumes "0 \<le> max_func s" and "\<forall>i. 0 \<le> i \<and> i < max_func s \<longrightarrow> funcs s i \<noteq> f"
  shows "really_unregister_func f s = (- 1, s)"
proof -
  have "find_func (funcs s) (max_func s) f 0 = max_func s"
    using assms by (intro find_func_none) auto
  then show ?thesis
    by (simp add: really_unregister_func_def)
qed

lemma really_unregister_func_present:
  assumes "0 \<le> i" and "i < max_func s" and "funcs s i = f"
    and "\<forall>j. 0 \<le> j \<and> j < i \<longrightarrow> funcs s j \<noteq> f"
  shows "really_unregister_func f s =
           (0, s\<lparr>funcs := (funcs s)(i := NULL),
                 max_func := (if i + 1 = max_func s
                              then shrink_max_func ((funcs s)(i := NULL)) (max_func s)
                              else max_func s)\<rparr>)"
proof -
  have "find_func (funcs s) (max_func s) f 0 = i"
    using assms by (intro find_func_first) auto
  with assms(2) show ?thesis
    by (simp add: really_unregister_func_def Let_def)
qed

text \<open>
  Claim C3.  In a state with \<open>0 \<le> max_func\<close>, \<open>really_unregister_func f\<close> returns
  \<open>-1\<close> and leaves the state as it is when \<open>f\<close> is in no slot below \<open>max_func\<close>.
  Otherwise it returns \<open>0\<close> and empties the first slot \<open>i\<close> that holds \<open>f\<close>; nothing
  else changes but \<open>max_func\<close>.  When \<open>i\<close> is not the slot \<open>max_func - 1\<close>, \<open>max_func\<close>
  stays.  When it is, the new value \<open>m\<close> is smaller, every slot from \<open>m\<close> up to the old
  \<open>max_func\<close> is empty, and \<open>m\<close> is zero or the slot \<open>m - 1\<close> is occupied: the index
  has moved down past the trailing empty slots and has stopped at the first occupied one.
\<close>

theorem really_unregister_func_spec:
  assumes "0 \<le> max_func s"
  shows "((\<forall>i. 0 \<le> i \<and> i < max_func s \<longrightarrow> funcs s i \<noteq> f)
            \<longrightarrow> really_unregister_func f s = (- 1, s))
       \<and> (\<forall>i. 0 \<le> i \<and> i < max_func s \<and> funcs s i = f
                \<and> (\<forall>j. 0 \<le> j \<and> j < i \<longrightarrow> funcs s j \<noteq> f)
            \<longrightarrow> (\<exists>m. really_unregister_func f s
                        = (0, s\<lparr>funcs := (funcs s)(i := NULL), max_func := m\<rparr>)
                   \<and> (i + 1 \<noteq> max_func s \<longrightarrow> m = max_func s)
                   \<and> (i + 1 = max_func s \<longrightarrow>
                        0 \<le> m \<and> m < max_func s
                      \<and> (\<forall>j. m \<le> j \<and> j < max_func s \<longrightarrow> ((funcs s)(i := NULL)) j = NULL)
                      \<and> (m = 0 \<or> ((funcs s)(i := NULL)) (m - 1) \<noteq> NULL))))"
proof (intro conjI allI impI)
  assume "\<forall>i. 0 \<le> i \<and> i < max_func s \<longrightarrow> funcs s i \<noteq> f"
  with assms show "really_unregister_func f s = (- 1, s)"
    by (rule really_unregister_func_absent)
next
  fix i
  assume a: "0 \<le> i \<and> i < max_func s \<and> funcs s i = f
    \<and> (\<forall>j. 0 \<le> j \<and> j < i \<longrightarrow> funcs s j \<noteq> f)"
  let ?fs = "(funcs s)(i := NULL)"
  let ?m = "if i + 1 = max_func s then shrink_max_func ?fs (max_func s) else max_func s"
  have r: "really_unregister_func f s = (0, s\<lparr>funcs := ?fs, max_func := ?m\<rparr>)"
    using a by (intro really_unregister_func_present) auto
  have one: "1 \<le> max_func s" using a by simp
  have "i + 1 = max_func s \<longrightarrow>
          0 \<le> ?m \<and> ?m < max_func s
        \<and> (\<forall>j. ?m \<le> j \<and> j < max_func s \<longrightarrow> ?fs j = NULL)
        \<and> (?m = 0 \<or> ?fs (?m - 1) \<noteq> NULL)"
  proof
    assume last: "i + 1 = max_func s"
    then have m: "?m = shrink_max_func ?fs (max_func s)" by simp
    have b: "0 \<le> ?m \<and> ?m < max_func s"
      unfolding m using one by (rule shrink_max_func_bounds)
    have e: "?fs j = NULL" if "?m \<le> j \<and> j < max_func s" for j
    proof (cases "j = i")
      case True
      then show ?thesis by simp
    next
      case False
      with that last have "shrink_max_func ?fs (max_func s) \<le> j" and "j < max_func s - 1"
        by auto
      then show ?thesis by (rule shrink_max_func_empty)
    qed
    have st: "?m = 0 \<or> ?fs (?m - 1) \<noteq> NULL"
      unfolding m using one by (rule shrink_max_func_stop)
    from b e st show "0 \<le> ?m \<and> ?m < max_func s
        \<and> (\<forall>j. ?m \<le> j \<and> j < max_func s \<longrightarrow> ?fs j = NULL)
        \<and> (?m = 0 \<or> ?fs (?m - 1) \<noteq> NULL)"
      by blast
  qed
  moreover have "i + 1 \<noteq> max_func s \<longrightarrow> ?m = max_func s" by simp
  ultimately show "\<exists>m. really_unregister_func f s
                        = (0, s\<lparr>funcs := (funcs s)(i := NULL), max_func := m\<rparr>)
                   \<and> (i + 1 \<noteq> max_func s \<longrightarrow> m = max_func s)
                   \<and> (i + 1 = max_func s \<longrightarrow>
                        0 \<le> m \<and> m < max_func s
                      \<and> (\<forall>j. m \<le> j \<and> j < max_func s \<longrightarrow> ((funcs s)(i := NULL)) j = NULL)
                      \<and> (m = 0 \<or> ((funcs s)(i := NULL)) (m - 1) \<noteq> NULL))"
    using r by blast
qed


text \<open>
  In the table with callbacks in the slots 0 and 3: an unknown callback is not found;
  removing the one in slot 3 moves \<open>max_func\<close> from 4 down to 1; removing the one in
  slot 0 leaves \<open>max_func\<close> at 4.
\<close>

theorem really_unregister_func_spec_witness:
  "0 \<le> max_func gap_state
   \<and> really_unregister_func (Addr 9) gap_state = (- 1, gap_state)
   \<and> really_unregister_func (Addr 2) gap_state
       = (0, gap_state\<lparr>funcs := (funcs gap_state)(3 := NULL), max_func := 1\<rparr>)
   \<and> really_unregister_func (Addr 1) gap_state
       = (0, gap_state\<lparr>funcs := (funcs gap_state)(0 := NULL), max_func := 4\<rparr>)"
proof -
  have h: "0 \<le> max_func gap_state"
    by (simp add: gap_state_def)
  note t = really_unregister_func_spec [OF h]
  have a: "really_unregister_func (Addr 9) gap_state = (- 1, gap_state)"
    using t [of "Addr 9"] by (simp add: gap_state_def)
  have "\<exists>m. really_unregister_func (Addr 2) gap_state
            = (0, gap_state\<lparr>funcs := (funcs gap_state)(3 := NULL), max_func := m\<rparr>)
          \<and> 0 \<le> m \<and> m < 4
          \<and> (\<forall>j. m \<le> j \<and> j < 4 \<longrightarrow> ((funcs gap_state)(3 := NULL)) j = NULL)
          \<and> (m = 0 \<or> ((funcs gap_state)(3 := NULL)) (m - 1) \<noteq> NULL)"
    using t [of "Addr 2", THEN conjunct2, THEN spec, of 3] by (simp add: gap_state_def)
  then obtain m where r: "really_unregister_func (Addr 2) gap_state
            = (0, gap_state\<lparr>funcs := (funcs gap_state)(3 := NULL), max_func := m\<rparr>)"
      and m: "0 \<le> m" "m < 4"
      and e: "\<forall>j. m \<le> j \<and> j < 4 \<longrightarrow> ((funcs gap_state)(3 := NULL)) j = NULL"
      and st: "m = 0 \<or> ((funcs gap_state)(3 := NULL)) (m - 1) \<noteq> NULL"
    by blast
  from e [THEN spec, of 0] have "m \<noteq> 0"
    by (auto simp: gap_state_def)
  with st m have "m = 1"
    by (auto simp: gap_state_def split: if_splits)
  with r have b: "really_unregister_func (Addr 2) gap_state
       = (0, gap_state\<lparr>funcs := (funcs gap_state)(3 := NULL), max_func := 1\<rparr>)"
    by simp
  have c: "really_unregister_func (Addr 1) gap_state
       = (0, gap_state\<lparr>funcs := (funcs gap_state)(0 := NULL), max_func := 4\<rparr>)"
    using t [of "Addr 1", THEN conjunct2, THEN spec, of 0] by (auto simp: gap_state_def)
  from h a b c show ?thesis by blast
qed

section \<open>Unregistering, at once or later\<close>

lemma find_func_present:
  assumes "0 \<le> i" and "i < mx" and "fs i = f"
  shows "find_func fs mx f 0 \<noteq> mx"
proof
  assume "find_func fs mx f 0 = mx"
  with assms(1,2) have "fs i \<noteq> f"
    by (intro find_func_before [of 0 i fs mx f]) auto
  with assms(3) show False by simp
qed

lemma registered_below_max_func:
  assumes "registry_inv s" and "f \<noteq> NULL"
  shows "is_registered f s \<longleftrightarrow> (\<exists>i. 0 \<le> i \<and> i < max_func s \<and> funcs s i = f)"
  using assms unfolding registry_inv_iff is_registered_iff
  by (metis less_le_trans not_less)

lemma unregister_absent:
  assumes "0 \<le> max_func s" and "\<forall>i. 0 \<le> i \<and> i < max_func s \<longrightarrow> funcs s i \<noteq> f"
  shows "bg_man_pthreads_unregister_func busy f s = (- 1, s)"
proof (cases busy)
  case True
  have "find_func (funcs s) (max_func s) f 0 = max_func s"
    using assms by (intro find_func_none) auto
  with True show ?thesis
    by (simp add: bg_man_pthreads_unregister_func_def)
next
  case False
  with assms show ?thesis
    by (simp add: bg_man_pthreads_unregister_func_def really_unregister_func_absent)
qed

lemma unregister_busy_present:
  assumes "0 \<le> i" and "i < max_func s" and "funcs s i = f"
  shows "bg_man_pthreads_unregister_func True f s
           = (0, s\<lparr>stale_funcs := stale_insert (stale_funcs s) f 0\<rparr>)"
  using find_func_present [of i "max_func s" "funcs s" f] assms
  by (simp add: bg_man_pthreads_unregister_func_def)

text \<open>
  Claim C4.  The request to unregister \<open>f\<close> finds the mutex busy, in a state with
  \<open>0 \<le> max_func\<close>.  When \<open>f\<close> is in no slot below \<open>max_func\<close> the call returns \<open>-1\<close>
  and changes nothing.  When \<open>f\<close> is in such a slot the call returns \<open>0\<close> and changes at
  most \<open>stale_funcs\<close>: \<open>f\<close> is written into the first empty slot \<open>k\<close> of the queue; and
  when none of the 16 slots of the queue is empty the call still returns \<open>0\<close> and the
  state is exactly as before, so the request is lost.
\<close>

theorem unregister_deferred_spec:
  assumes "0 \<le> max_func s"
  shows "((\<forall>i. 0 \<le> i \<and> i < max_func s \<longrightarrow> funcs s i \<noteq> f)
            \<longrightarrow> bg_man_pthreads_unregister_func True f s = (- 1, s))
       \<and> ((\<exists>i. 0 \<le> i \<and> i < max_func s \<and> funcs s i = f) \<longrightarrow>
              fst (bg_man_pthreads_unregister_func True f s) = 0
            \<and> (\<forall>k. 0 \<le> k \<and> k < MAX_FUNCS \<and> stale_funcs s k = NULL
                     \<and> (\<forall>j. 0 \<le> j \<and> j < k \<longrightarrow> stale_funcs s j \<noteq> NULL)
                 \<longrightarrow> snd (bg_man_pthreads_unregister_func True f s)
                       = s\<lparr>stale_funcs := (stale_funcs s)(k := f)\<rparr>)
            \<and> ((\<forall>j. 0 \<le> j \<and> j < MAX_FUNCS \<longrightarrow> stale_funcs s j \<noteq> NULL)
                 \<longrightarrow> bg_man_pthreads_unregister_func True f s = (0, s)))"
proof (intro conjI impI allI)
  assume "\<forall>i. 0 \<le> i \<and> i < max_func s \<longrightarrow> funcs s i \<noteq> f"
  with assms show "bg_man_pthreads_unregister_func True f s = (- 1, s)"
    by (rule unregister_absent)
next
  assume "\<exists>i. 0 \<le> i \<and> i < max_func s \<and> funcs s i = f"
  then obtain i where "0 \<le> i" "i < max_func s" "funcs s i = f" by blast
  then show "fst (bg_man_pthreads_unregister_func True f s) = 0"
    by (simp add: unregister_busy_present)
next
  fix k
  assume "\<exists>i. 0 \<le> i \<and> i < max_func s \<and> funcs s i = f"
  then obtain i where "0 \<le> i" "i < max_func s" "funcs s i = f" by blast
  then have r: "bg_man_pthreads_unregister_func True f s
           = (0, s\<lparr>stale_funcs := stale_insert (stale_funcs s) f 0\<rparr>)"
    by (rule unregister_busy_present)
  assume "0 \<le> k \<and> k < MAX_FUNCS \<and> stale_funcs s k = NULL
    \<and> (\<forall>j. 0 \<le> j \<and> j < k \<longrightarrow> stale_funcs s j \<noteq> NULL)"
  then have "stale_insert (stale_funcs s) f 0 = (stale_funcs s)(k := f)"
    by (intro stale_insert_at) auto
  with r show "snd (bg_man_pthreads_unregister_func True f s)
                 = s\<lparr>stale_funcs := (stale_funcs s)(k := f)\<rparr>"
    by simp
next
  assume "\<exists>i. 0 \<le> i \<and> i < max_func s \<and> funcs s i = f"
  then obtain i where "0 \<le> i" "i < max_func s" "funcs s i = f" by blast
  then have r: "bg_man_pthreads_unregister_func True f s
           = (0, s\<lparr>stale_funcs := stale_insert (stale_funcs s) f 0\<rparr>)"
    by (rule unregister_busy_present)
  assume "\<forall>j. 0 \<le> j \<and> j < MAX_FUNCS \<longrightarrow> stale_funcs s j \<noteq> NULL"
  then have "stale_insert (stale_funcs s) f 0 = stale_funcs s"
    by (intro stale_insert_full) auto
  with r show "bg_man_pthreads_unregister_func True f s = (0, s)"
    by simp
qed

text \<open>
  In the table with callbacks in the slots 0 and 3: an unknown callback gives \<open>-1\<close>;
  with an empty queue the request for the callback of slot 3 goes to slot 0 of the
  queue; with a full queue the request for the callback of slot 0 returns \<open>0\<close> and
  leaves no trace.
\<close>

theorem unregister_deferred_spec_witness:
  "0 \<le> max_func gap_state
   \<and> bg_man_pthreads_unregister_func True (Addr 9) gap_state = (- 1, gap_state)
   \<and> bg_man_pthreads_unregister_func True (Addr 2) gap_state
       = (0, gap_state\<lparr>stale_funcs := (stale_funcs gap_state)(0 := Addr 2)\<rparr>)
   \<and> 0 \<le> max_func stale_full_state
   \<and> bg_man_pthreads_unregister_func True (Addr 1) stale_full_state = (0, stale_full_state)"
proof -
  have h: "0 \<le> max_func gap_state"
    by (simp add: gap_state_def)
  have h': "0 \<le> max_func stale_full_state"
    by (simp add: stale_full_state_def gap_state_def)
  have a: "bg_man_pthreads_unregister_func True (Addr 9) gap_state = (- 1, gap_state)"
    using unregister_deferred_spec [OF h, of "Addr 9"] by (simp add: gap_state_def)
  have p: "\<exists>i. 0 \<le> i \<and> i < max_func gap_state \<and> funcs gap_state i = Addr 2"
    by (rule exI [of _ 3]) (simp add: gap_state_def)
  have "fst (bg_man_pthreads_unregister_func True (Addr 2) gap_state) = 0
      \<and> snd (bg_man_pthreads_unregister_func True (Addr 2) gap_state)
          = gap_state\<lparr>stale_funcs := (stale_funcs gap_state)(0 := Addr 2)\<rparr>"
    using unregister_deferred_spec [OF h, of "Addr 2"] p
    by (simp add: gap_state_def zero_state_def)
  then have b: "bg_man_pthreads_unregister_func True (Addr 2) gap_state
       = (0, gap_state\<lparr>stale_funcs := (stale_funcs gap_state)(0 := Addr 2)\<rparr>)"
    by (simp add: prod_eq_iff)
  have p': "\<exists>i. 0 \<le> i \<and> i < max_func stale_full_state \<and> funcs stale_full_state i = Addr 1"
    by (rule exI [of _ 0]) (simp add: stale_full_state_def gap_state_def)
  have c: "bg_man_pthreads_unregister_func True (Addr 1) stale_full_state = (0, stale_full_state)"
    using unregister_deferred_spec [OF h', of "Addr 1"] p'
    by (simp add: stale_full_state_def)
  from h a b h' c show ?thesis by blast
qed

text \<open>
  Claim C5.  In a state that satisfies the invariant of the table, a callback that is
  in none of the 16 slots is not found, whether the mutex was free (the callback would
  have been removed at once) or busy (the request would have been queued): the call
  returns \<open>-1\<close> and changes nothing.
\<close>

theorem unregister_not_registered:
  assumes "registry_inv s" and "\<not> is_registered f s"
  shows "bg_man_pthreads_unregister_func False f s = (- 1, s)
       \<and> bg_man_pthreads_unregister_func True f s = (- 1, s)"
proof -
  have "0 \<le> max_func s" and "max_func s \<le> MAX_FUNCS"
    using assms(1) by (simp_all add: registry_inv_iff)
  moreover from this assms(2) have "\<forall>i. 0 \<le> i \<and> i < max_func s \<longrightarrow> funcs s i \<noteq> f"
    unfolding is_registered_iff by (metis less_le_trans)
  ultimately show ?thesis
    by (simp add: unregister_absent)
qed

text \<open>
  The callback of slot 3 is removed at once; the same call again, on either path, no
  longer finds it.
\<close>

theorem unregister_not_registered_witness:
  "registry_inv (snd (bg_man_pthreads_unregister_func False (Addr 2) gap_state))
   \<and> \<not> is_registered (Addr 2) (snd (bg_man_pthreads_unregister_func False (Addr 2) gap_state))
   \<and> fst (bg_man_pthreads_unregister_func False (Addr 2)
         (snd (bg_man_pthreads_unregister_func False (Addr 2) gap_state))) = - 1
   \<and> fst (bg_man_pthreads_unregister_func True (Addr 2)
         (snd (bg_man_pthreads_unregister_func False (Addr 2) gap_state))) = - 1"
proof -
  let ?s = "snd (bg_man_pthreads_unregister_func False (Addr 2) gap_state)"
  have s: "?s = gap_state\<lparr>funcs := (funcs gap_state)(3 := NULL), max_func := 1\<rparr>"
    by (simp add: bg_man_pthreads_unregister_func_def really_unregister_func_def gap_state_def
        find_func.simps shrink_max_func.simps Let_def)
  have h1: "registry_inv ?s"
    unfolding s by (simp add: registry_inv_iff gap_state_def)
  have h2: "\<not> is_registered (Addr 2) ?s"
    unfolding s by (simp add: is_registered_iff gap_state_def)
  from unregister_not_registered [OF h1 h2] h1 h2 show ?thesis
    by simp
qed

section \<open>Registering a callback\<close>

lemma init_funcs:
  "funcs (bg_man_pthreads_init s) i = (if 0 \<le> i \<and> i < MAX_FUNCS then NULL else funcs s i)"
  "stale_funcs (bg_man_pthreads_init s) i
     = (if 0 \<le> i \<and> i < MAX_FUNCS then NULL else stale_funcs s i)"
  "max_func (bg_man_pthreads_init s) = 0"
  "cli_count (bg_man_pthreads_init s) = 0"
  by (simp_all add: bg_man_pthreads_init_def init_loop_eq)

text \<open>The counter is at \<open>INT_MAX\<close>: the call of \<open>disable_interrupts\<close> overflows it.\<close>

lemma register_func_overflow:
  assumes "int INT_MAX \<le> cli_count s"
  shows "bg_man_pthreads_register_func f s = Inl CliCountOverflow"
  using assms by (simp add: bg_man_pthreads_register_func_def disable_overflow)

text \<open>The table is full: the scan reads \<open>funcs[MAX_FUNCS]\<close>.\<close>

lemma register_func_full:
  assumes "\<forall>i. 0 \<le> i \<and> i < MAX_FUNCS \<longrightarrow> funcs s i \<noteq> NULL"
    and "cli_count s < int INT_MAX"
  shows "bg_man_pthreads_register_func f s = Inl (FuncsOutOfBounds MAX_FUNCS)"
proof -
  have "first_free (funcs s) 0 = Inl (FuncsOutOfBounds MAX_FUNCS)"
    using assms(1) by (intro first_free_full) auto
  with assms(2) show ?thesis
    by (simp add: bg_man_pthreads_register_func_def disable_defined)
qed

text \<open>The table has an empty slot and the counter is in the range of an \<open>int\<close>.\<close>

lemma register_func_free:
  assumes "0 \<le> k" and "k < MAX_FUNCS" and "funcs s k = NULL"
    and "\<forall>j. 0 \<le> j \<and> j < k \<longrightarrow> funcs s j \<noteq> NULL"
    and "- int INT_MAX - 1 \<le> cli_count s" and "cli_count s < int INT_MAX"
  shows "bg_man_pthreads_register_func f s =
           Inr (0, s\<lparr>funcs := (funcs s)(k := f),
                     max_func := (if k = max_func s then max_func s + 1 else max_func s),
                     cli_cond_signals :=
                       (if cli_count s = 0 then Suc (cli_cond_signals s)
                        else cli_cond_signals s)\<rparr>)"
proof -
  have ff: "first_free (funcs s) 0 = Inr k"
    using assms(1-4) by (intro first_free_at) auto
  have en: "bg_man_pthreads_enable_interrupts t =
       Inr (t\<lparr>cli_count := cli_count t - 1,
              cli_cond_signals :=
                (if cli_count t = 1 then Suc (cli_cond_signals t) else cli_cond_signals t)\<rparr>)"
    if "cli_count t = cli_count s + 1" for t
    using that assms(5) by (intro enable_defined) simp
  show ?thesis
    using assms(2,6) ff
    by (simp add: bg_man_pthreads_register_func_def disable_defined en Let_def)
qed

text \<open>
  These are all the cases: a registration overflows the counter, or reads past the
  full table, or stores the callback in the first empty slot and returns \<open>0\<close>.  It
  never returns \<open>-1\<close>.
\<close>

lemma register_func_cases:
  "bg_man_pthreads_register_func f s = Inl CliCountOverflow
   \<or> bg_man_pthreads_register_func f s = Inl (FuncsOutOfBounds MAX_FUNCS)
   \<or> (\<exists>k. 0 \<le> k \<and> k < MAX_FUNCS \<and> funcs s k = NULL
          \<and> (\<forall>j. 0 \<le> j \<and> j < k \<longrightarrow> funcs s j \<noteq> NULL)
          \<and> bg_man_pthreads_register_func f s =
               Inr (0, s\<lparr>funcs := (funcs s)(k := f),
                         max_func := (if k = max_func s then max_func s + 1 else max_func s),
                         cli_cond_signals :=
                           (if cli_count s = 0 then Suc (cli_cond_signals s)
                            else cli_cond_signals s)\<rparr>))"
proof (cases "cli_count s < int INT_MAX")
  case False
  then show ?thesis by (simp add: register_func_overflow)
next
  case lt: True
  show ?thesis
  proof (cases "\<forall>i. 0 \<le> i \<and> i < MAX_FUNCS \<longrightarrow> funcs s i \<noteq> NULL")
    case True
    with lt show ?thesis by (simp add: register_func_full)
  next
    case False
    then obtain i where "0 \<le> i" "i < MAX_FUNCS" "funcs s i = NULL" by blast
    then obtain k where k: "0 \<le> k" "k < MAX_FUNCS" "funcs s k = NULL"
      "\<forall>j. 0 \<le> j \<and> j < k \<longrightarrow> funcs s j \<noteq> NULL"
      using first_empty_slot [of i "funcs s"] by blast
    show ?thesis
    proof (cases "- int INT_MAX - 1 \<le> cli_count s")
      case True
      from register_func_free [OF k True lt, of f] k show ?thesis by blast
    next
      case False
      have ff: "first_free (funcs s) 0 = Inr k"
        using k by (intro first_free_at) auto
      have "bg_man_pthreads_enable_interrupts t = Inl CliCountOverflow"
        if "cli_count t = cli_count s + 1" for t
        using that False by (simp add: bg_man_pthreads_enable_interrupts_def)
      then have "bg_man_pthreads_register_func f s = Inl CliCountOverflow"
        using lt ff k(2)
        by (simp add: bg_man_pthreads_register_func_def disable_defined Let_def)
      then show ?thesis by blast
    qed
  qed
qed

text \<open>Registering a list of callbacks into a table whose first \<open>n\<close> slots are occupied.\<close>

lemma register_all_append:
  "register_all (fs @ [g]) s =
     (case register_all fs s of
        Inl e \<Rightarrow> Inl e
      | Inr (rs, s1) \<Rightarrow>
          (case bg_man_pthreads_register_func g s1 of
             Inl e \<Rightarrow> Inl e
           | Inr (r, s2) \<Rightarrow> Inr (rs @ [r], s2)))"
  by (induction fs arbitrary: s) (auto split: sum.splits)

lemma register_all_fill:
  assumes "0 \<le> n" and "n + int (length fs) \<le> MAX_FUNCS" and "NULL \<notin> set fs"
    and "\<forall>i. 0 \<le> i \<and> i < n \<longrightarrow> funcs s i \<noteq> NULL"
    and "\<forall>i. n \<le> i \<and> i < MAX_FUNCS \<longrightarrow> funcs s i = NULL"
    and "- int INT_MAX - 1 \<le> cli_count s" and "cli_count s < int INT_MAX"
  shows "\<exists>t. register_all fs s = Inr (replicate (length fs) 0, t)
       \<and> cli_count t = cli_count s
       \<and> (\<forall>i. 0 \<le> i \<and> i < n + int (length fs) \<longrightarrow> funcs t i \<noteq> NULL)
       \<and> (\<forall>i. n + int (length fs) \<le> i \<and> i < MAX_FUNCS \<longrightarrow> funcs t i = NULL)"
  using assms
proof (induction fs arbitrary: s n)
  case Nil
  then show ?case by simp
next
  case (Cons f fs)
  define s1 where "s1 = s\<lparr>funcs := (funcs s)(n := f),
                 max_func := (if n = max_func s then max_func s + 1 else max_func s),
                 cli_cond_signals :=
                     (if cli_count s = 0 then Suc (cli_cond_signals s) else cli_cond_signals s)\<rparr>"
  have n16: "n < MAX_FUNCS" using Cons.prems(2) by simp
  have r: "bg_man_pthreads_register_func f s = Inr (0, s1)"
    unfolding s1_def
    using Cons.prems(1) n16 Cons.prems(4,5,6,7) by (intro register_func_free) auto
  have f: "f \<noteq> NULL" using Cons.prems(3) by auto
  have fs1: "funcs s1 i = (if i = n then f else funcs s i)" for i
    by (simp add: s1_def)
  have c1: "cli_count s1 = cli_count s" by (simp add: s1_def)
  have "\<exists>t. register_all fs s1 = Inr (replicate (length fs) 0, t)
       \<and> cli_count t = cli_count s1
       \<and> (\<forall>i. 0 \<le> i \<and> i < (n + 1) + int (length fs) \<longrightarrow> funcs t i \<noteq> NULL)
       \<and> (\<forall>i. (n + 1) + int (length fs) \<le> i \<and> i < MAX_FUNCS \<longrightarrow> funcs t i = NULL)"
  proof (rule Cons.IH)
    show "0 \<le> n + 1" using Cons.prems(1) by simp
    show "n + 1 + int (length fs) \<le> MAX_FUNCS" using Cons.prems(2) by simp
    show "NULL \<notin> set fs" using Cons.prems(3) by simp
    show "\<forall>i. 0 \<le> i \<and> i < n + 1 \<longrightarrow> funcs s1 i \<noteq> NULL"
      using Cons.prems(4) f by (simp add: fs1)
    show "\<forall>i. n + 1 \<le> i \<and> i < MAX_FUNCS \<longrightarrow> funcs s1 i = NULL"
      using Cons.prems(5) by (simp add: fs1)
    show "- int INT_MAX - 1 \<le> cli_count s1" using Cons.prems(6) c1 by simp
    show "cli_count s1 < int INT_MAX" using Cons.prems(7) c1 by simp
  qed
  then obtain t where t: "register_all fs s1 = Inr (replicate (length fs) 0, t)"
    and ct: "cli_count t = cli_count s1"
    and occ: "\<forall>i. 0 \<le> i \<and> i < (n + 1) + int (length fs) \<longrightarrow> funcs t i \<noteq> NULL"
    and emp: "\<forall>i. (n + 1) + int (length fs) \<le> i \<and> i < MAX_FUNCS \<longrightarrow> funcs t i = NULL"
    by blast
  have "register_all (f # fs) s = Inr (replicate (length (f # fs)) 0, t)"
    by (simp add: r t)
  moreover have "cli_count t = cli_count s" using ct c1 by simp
  moreover have "\<forall>i. 0 \<le> i \<and> i < n + int (length (f # fs)) \<longrightarrow> funcs t i \<noteq> NULL"
    using occ by (simp add: add.assoc add.commute)
  moreover have "\<forall>i. n + int (length (f # fs)) \<le> i \<and> i < MAX_FUNCS \<longrightarrow> funcs t i = NULL"
    using emp by (simp add: add.assoc add.commute)
  ultimately show ?case by blast
qed

text \<open>
  After the initialisation, 16 callbacks other than \<open>NULL\<close> are registered with the
  return value \<open>0\<close>; the next registration reads \<open>funcs[MAX_FUNCS]\<close>.
\<close>

lemma register_sixteen:
  assumes "length fs = 16" and "NULL \<notin> set fs"
  shows "map_sum id fst (register_all fs (bg_man_pthreads_init s)) = Inr (replicate 16 0)"
    and "register_all (fs @ [g]) (bg_man_pthreads_init s) = Inl (FuncsOutOfBounds MAX_FUNCS)"
proof -
  let ?s = "bg_man_pthreads_init s"
  have "\<exists>t. register_all fs ?s = Inr (replicate (length fs) 0, t)
       \<and> cli_count t = cli_count ?s
       \<and> (\<forall>i. 0 \<le> i \<and> i < 0 + int (length fs) \<longrightarrow> funcs t i \<noteq> NULL)
       \<and> (\<forall>i. 0 + int (length fs) \<le> i \<and> i < MAX_FUNCS \<longrightarrow> funcs t i = NULL)"
    using assms by (intro register_all_fill) (simp_all add: init_funcs)
  then obtain t where t: "register_all fs ?s = Inr (replicate (length fs) 0, t)"
    and ct: "cli_count t = cli_count ?s"
    and occ: "\<forall>i. 0 \<le> i \<and> i < 0 + int (length fs) \<longrightarrow> funcs t i \<noteq> NULL"
    by blast
  from t assms(1) show "map_sum id fst (register_all fs ?s) = Inr (replicate 16 0)"
    by simp
  from occ assms(1) have "\<forall>i. 0 \<le> i \<and> i < MAX_FUNCS \<longrightarrow> funcs t i \<noteq> NULL" by simp
  moreover from ct have "cli_count t < int INT_MAX" by (simp add: init_funcs)
  ultimately have "bg_man_pthreads_register_func g t = Inl (FuncsOutOfBounds MAX_FUNCS)"
    by (rule register_func_full)
  with t show "register_all (fs @ [g]) ?s = Inl (FuncsOutOfBounds MAX_FUNCS)"
    by (simp add: register_all_append)
qed

text \<open>
  Claim C2, as the code has it.  The claim is right where the table has an empty slot:
  the callback goes to the first empty slot and \<open>max_func\<close> grows when that slot is
  \<open>max_func\<close> (registering into the table with callbacks in the slots 0 and 3 takes
  slot 1).  It asks for the return value \<open>-1\<close> when the 16 slots are occupied.  There
  the scan of line 156 tests \<open>funcs[i]\<close> before \<open>i < MAX_FUNCS\<close> and reads
  \<open>funcs[MAX_FUNCS]\<close>, past the end of the array: after 16 registrations that return
  \<open>0\<close>, the 17th has no defined return value.
\<close>

theorem register_seventeenth_undefined:
  "map_sum id fst (register_all (map Addr [1..<17]) (bg_man_pthreads_init zero_state))
     = Inr (replicate 16 0)
   \<and> register_all (map Addr [1..<17] @ [Addr 17]) (bg_man_pthreads_init zero_state)
       = Inl (FuncsOutOfBounds MAX_FUNCS)
   \<and> bg_man_pthreads_register_func (Addr 17) full_state = Inl (FuncsOutOfBounds MAX_FUNCS)
   \<and> bg_man_pthreads_register_func (Addr 5) gap_state
       = Inr (0, gap_state\<lparr>funcs := (funcs gap_state)(1 := Addr 5), max_func := 4,
                   cli_cond_signals := 1\<rparr>)"
proof -
  have l: "length (map Addr [1..<17]) = 16" "NULL \<notin> set (map Addr [1..<17])"
    by auto
  have full: "\<forall>i. 0 \<le> i \<and> i < MAX_FUNCS \<longrightarrow> funcs full_state i \<noteq> NULL"
    by (simp add: full_state_def zero_state_def)
  have a: "bg_man_pthreads_register_func (Addr 17) full_state = Inl (FuncsOutOfBounds MAX_FUNCS)"
    using full by (rule register_func_full) (simp add: full_state_def zero_state_def)
  have "bg_man_pthreads_register_func (Addr 5) gap_state =
           Inr (0, gap_state\<lparr>funcs := (funcs gap_state)(1 := Addr 5),
                     max_func := (if 1 = max_func gap_state then max_func gap_state + 1
                                  else max_func gap_state),
                     cli_cond_signals :=
                       (if cli_count gap_state = 0 then Suc (cli_cond_signals gap_state)
                        else cli_cond_signals gap_state)\<rparr>)"
    by (rule register_func_free) (auto simp: gap_state_def zero_state_def)
  then have b: "bg_man_pthreads_register_func (Addr 5) gap_state
       = Inr (0, gap_state\<lparr>funcs := (funcs gap_state)(1 := Addr 5), max_func := 4,
                   cli_cond_signals := 1\<rparr>)"
    by (simp add: gap_state_def zero_state_def)
  from register_sixteen [OF l] a b show ?thesis by simp
qed

section \<open>Invariants of the table\<close>

lemma really_unregister_func_cases:
  assumes "0 \<le> max_func s"
  shows "really_unregister_func f s = (- 1, s)
       \<or> (\<exists>i. 0 \<le> i \<and> i < max_func s \<and> funcs s i = f
             \<and> really_unregister_func f s =
                 (0, s\<lparr>funcs := (funcs s)(i := NULL),
                       max_func := (if i + 1 = max_func s
                                    then shrink_max_func ((funcs s)(i := NULL)) (max_func s)
                                    else max_func s)\<rparr>))"
proof -
  let ?i = "find_func (funcs s) (max_func s) f 0"
  have b: "0 \<le> ?i \<and> ?i \<le> max_func s"
    using assms by (rule find_func_bounds)
  show ?thesis
  proof (cases "?i = max_func s")
    case True
    then show ?thesis by (simp add: really_unregister_func_def)
  next
    case False
    with b have lt: "?i < max_func s" by simp
    then have "funcs s ?i = f" by (rule find_func_at)
    moreover from False have "really_unregister_func f s =
                 (0, s\<lparr>funcs := (funcs s)(?i := NULL),
                       max_func := (if ?i + 1 = max_func s
                                    then shrink_max_func ((funcs s)(?i := NULL)) (max_func s)
                                    else max_func s)\<rparr>)"
      by (simp add: really_unregister_func_def Let_def)
    ultimately show ?thesis using b lt by blast
  qed
qed


lemma registry_inv_really_unregister:
  assumes "registry_inv s"
  shows "registry_inv (snd (really_unregister_func f s))"
proof -
  from assms have mx: "0 \<le> max_func s" "max_func s \<le> MAX_FUNCS"
    and e: "\<forall>i. max_func s \<le> i \<and> i < MAX_FUNCS \<longrightarrow> funcs s i = NULL"
    by (simp_all add: registry_inv_iff)
  from really_unregister_func_cases [OF mx(1), of f] show ?thesis
  proof
    assume "really_unregister_func f s = (- 1, s)"
    with assms show ?thesis by simp
  next
    assume "\<exists>i. 0 \<le> i \<and> i < max_func s \<and> funcs s i = f
             \<and> really_unregister_func f s =
                 (0, s\<lparr>funcs := (funcs s)(i := NULL),
                       max_func := (if i + 1 = max_func s
                                    then shrink_max_func ((funcs s)(i := NULL)) (max_func s)
                                    else max_func s)\<rparr>)"
    then obtain i where i: "0 \<le> i" "i < max_func s"
      and r: "really_unregister_func f s =
                 (0, s\<lparr>funcs := (funcs s)(i := NULL),
                       max_func := (if i + 1 = max_func s
                                    then shrink_max_func ((funcs s)(i := NULL)) (max_func s)
                                    else max_func s)\<rparr>)"
      by blast
    let ?fs = "(funcs s)(i := NULL)"
    show ?thesis
    proof (cases "i + 1 = max_func s")
      case False
      with mx e show ?thesis
        by (simp add: r registry_inv_iff)
    next
      case last: True
      let ?m = "shrink_max_func ?fs (max_func s)"
      have one: "1 \<le> max_func s" using i by simp
      have b: "0 \<le> ?m \<and> ?m < max_func s"
        using one by (rule shrink_max_func_bounds)
      have "?fs j = NULL" if "?m \<le> j \<and> j < MAX_FUNCS" for j
      proof (cases "j < max_func s - 1")
        case True
        with that show ?thesis
          by (intro shrink_max_func_empty [of ?fs "max_func s" j]) simp_all
      next
        case False
        with e that last show ?thesis by (cases "j = i") auto
      qed
      with b mx last show ?thesis
        by (simp add: r registry_inv_iff)
    qed
  qed
qed

lemma gate_fields:
  "bg_man_pthreads_enable_interrupts s = Inr t \<Longrightarrow>
     funcs t = funcs s \<and> max_func t = max_func s \<and> stale_funcs t = stale_funcs s"
  "bg_man_pthreads_disable_interrupts s = Inr t \<Longrightarrow>
     funcs t = funcs s \<and> max_func t = max_func s \<and> stale_funcs t = stale_funcs s"
  by (auto simp: bg_man_pthreads_enable_interrupts_def bg_man_pthreads_disable_interrupts_def
      Let_def split: if_splits)








section \<open>Callbacks registered twice\<close>

lemma no_dupD:
  assumes "no_dup s" and "0 \<le> i" "i < MAX_FUNCS" "0 \<le> j" "j < MAX_FUNCS"
    and "funcs s i \<noteq> NULL" and "funcs s i = funcs s j"
  shows "i = j"
proof -
  from assms(1) have "0 \<le> i \<and> i < MAX_FUNCS \<and> 0 \<le> j \<and> j < MAX_FUNCS
        \<and> funcs s i \<noteq> NULL \<and> funcs s i = funcs s j \<longrightarrow> i = j"
    unfolding no_dup_iff by (elim allE)
  with assms(2-) show ?thesis by (elim impE) (intro conjI)
qed

lemma no_dupI:
  assumes "\<And>i j. 0 \<le> i \<Longrightarrow> i < MAX_FUNCS \<Longrightarrow> 0 \<le> j \<Longrightarrow> j < MAX_FUNCS
    \<Longrightarrow> funcs s i \<noteq> NULL \<Longrightarrow> funcs s i = funcs s j \<Longrightarrow> i = j"
  shows "no_dup s"
  unfolding no_dup_iff
proof (intro allI impI)
  fix i j
  assume "0 \<le> i \<and> i < MAX_FUNCS \<and> 0 \<le> j \<and> j < MAX_FUNCS
        \<and> funcs s i \<noteq> NULL \<and> funcs s i = funcs s j"
  then show "i = j" by (elim conjE) (rule assms)
qed

lemma no_dup_clear:
  assumes "no_dup s" and "funcs t = funcs s \<or> (\<exists>i. funcs t = (funcs s)(i := NULL))"
  shows "no_dup t"
proof (rule no_dupI)
  fix i j :: int
  assume b: "0 \<le> i" "i < MAX_FUNCS" "0 \<le> j" "j < MAX_FUNCS"
    and ne: "funcs t i \<noteq> NULL" and eq: "funcs t i = funcs t j"
  from assms(2) have "funcs s i \<noteq> NULL \<and> funcs s i = funcs s j"
  proof
    assume "funcs t = funcs s"
    with ne eq show ?thesis by metis
  next
    assume "\<exists>k. funcs t = (funcs s)(k := NULL)"
    then obtain k where "funcs t = (funcs s)(k := NULL)" by blast
    then have k: "funcs t x = (if x = k then NULL else funcs s x)" for x
      by simp
    from ne k [of i] have "i \<noteq> k" by metis
    moreover from ne eq k [of j] have "j \<noteq> k" by metis
    ultimately show ?thesis using ne eq k [of i] k [of j] by metis
  qed
  then have "funcs s i \<noteq> NULL" and "funcs s i = funcs s j" by blast+
  with assms(1) b show "i = j" by (rule no_dupD)
qed

lemma funcs_really_unregister:
  "funcs (snd (really_unregister_func f s)) = funcs s
     \<or> (\<exists>i. funcs (snd (really_unregister_func f s)) = (funcs s)(i := NULL))"
proof (cases "find_func (funcs s) (max_func s) f 0 = max_func s")
  case True
  then show ?thesis by (simp add: really_unregister_func_def)
next
  case False
  then have "funcs (snd (really_unregister_func f s))
               = (funcs s)(find_func (funcs s) (max_func s) f 0 := NULL)"
    by (simp add: really_unregister_func_def Let_def)
  then show ?thesis by blast
qed

lemma no_dup_unregister:
  assumes "no_dup s"
  shows "no_dup (snd (bg_man_pthreads_unregister_func busy f s))"
proof (cases busy)
  case True
  then have "funcs (snd (bg_man_pthreads_unregister_func busy f s)) = funcs s"
    by (simp add: bg_man_pthreads_unregister_func_def Let_def)
  then have "funcs (snd (bg_man_pthreads_unregister_func busy f s)) = funcs s
     \<or> (\<exists>i. funcs (snd (bg_man_pthreads_unregister_func busy f s)) = (funcs s)(i := NULL))"
    by (rule disjI1)
  with assms show ?thesis by (rule no_dup_clear)
next
  case False
  then have "bg_man_pthreads_unregister_func busy f s = really_unregister_func f s"
    by (simp add: bg_man_pthreads_unregister_func_def)
  with funcs_really_unregister [of f s]
  have "funcs (snd (bg_man_pthreads_unregister_func busy f s)) = funcs s
     \<or> (\<exists>i. funcs (snd (bg_man_pthreads_unregister_func busy f s)) = (funcs s)(i := NULL))"
    by metis
  with assms show ?thesis by (rule no_dup_clear)
qed

lemma no_dup_register:
  assumes "no_dup s" and "f = NULL \<or> \<not> is_registered f s"
    and "bg_man_pthreads_register_func f s = Inr (r, t)"
  shows "no_dup t"
proof -
  from register_func_cases [of f s] assms(3)
  obtain k where k: "0 \<le> k" "k < MAX_FUNCS" "funcs s k = NULL"
    and t: "t = s\<lparr>funcs := (funcs s)(k := f),
                   max_func := (if k = max_func s then max_func s + 1 else max_func s),
                   cli_cond_signals :=
                     (if cli_count s = 0 then Suc (cli_cond_signals s)
                      else cli_cond_signals s)\<rparr>"
    by auto
  have fk: "funcs t x = (if x = k then f else funcs s x)" for x
    by (simp add: t)
  from assms(2) show ?thesis
  proof
    assume "f = NULL"
    with k(3) fk have "funcs t = funcs s" by (auto simp: fun_eq_iff)
    then have "funcs t = funcs s \<or> (\<exists>i. funcs t = (funcs s)(i := NULL))"
      by (rule disjI1)
    with assms(1) show ?thesis by (rule no_dup_clear)
  next
    assume "\<not> is_registered f s"
    then have nf: "funcs s i \<noteq> f" if "0 \<le> i" "i < MAX_FUNCS" for i
      using that by (auto simp: is_registered_iff)
    show ?thesis
    proof (rule no_dupI)
      fix i j :: int
      assume b: "0 \<le> i" "i < MAX_FUNCS" "0 \<le> j" "j < MAX_FUNCS"
        and ne: "funcs t i \<noteq> NULL" and eq: "funcs t i = funcs t j"
      show "i = j"
      proof (cases "i = k")
        case True
        show ?thesis
        proof (cases "j = k")
          case True
          with \<open>i = k\<close> show ?thesis by simp
        next
          case False
          with True eq fk [of i] fk [of j] have "funcs s j = f" by metis
          with nf [OF b(3,4)] show ?thesis by simp
        qed
      next
        case ik: False
        show ?thesis
        proof (cases "j = k")
          case True
          with eq fk [of i] fk [of j] ik have "funcs s i = f" by metis
          with nf [OF b(1,2)] show ?thesis by simp
        next
          case False
          with ik ne eq fk [of i] fk [of j]
          have "funcs s i \<noteq> NULL" and "funcs s i = funcs s j" by metis+
          with assms(1) b show ?thesis by (rule no_dupD)
        qed
      qed
    qed
  qed
qed

lemma no_dup_init: "no_dup (bg_man_pthreads_init s)"
  by (rule no_dupI) (simp add: init_funcs)

lemma no_dup_exec_call:
  assumes "no_dup s" and "exec_call c s = Inr t"
    and "\<forall>f. c = Register f \<longrightarrow> f = NULL \<or> \<not> is_registered f s"
  shows "no_dup t"
proof (cases c)
  case (Register f)
  with assms(2) obtain r where "bg_man_pthreads_register_func f s = Inr (r, t)"
    by (auto split: sum.splits)
  with assms(1,3) Register show ?thesis by (intro no_dup_register [of s f r t]) simp_all
next
  case (Unregister busy f)
  with assms(2) have "t = snd (bg_man_pthreads_unregister_func busy f s)" by auto
  with assms(1) show ?thesis by (simp add: no_dup_unregister)
next
  case Enable
  with assms(2) gate_fields(1) [of s t] have "funcs t = funcs s" by simp
  then have "funcs t = funcs s \<or> (\<exists>i. funcs t = (funcs s)(i := NULL))" by (rule disjI1)
  with assms(1) show ?thesis by (rule no_dup_clear)
next
  case Disable
  with assms(2) gate_fields(2) [of s t] have "funcs t = funcs s" by simp
  then have "funcs t = funcs s \<or> (\<exists>i. funcs t = (funcs s)(i := NULL))" by (rule disjI1)
  with assms(1) show ?thesis by (rule no_dup_clear)
qed

lemma no_dup_exec_calls:
  "no_dup s \<Longrightarrow> fresh_calls cs s \<Longrightarrow> exec_calls cs s = Inr t \<Longrightarrow> no_dup t"
proof (induction cs arbitrary: s)
  case Nil
  then show ?case by simp
next
  case (Cons c cs)
  from Cons.prems(3) obtain s1 where s1: "exec_call c s = Inr s1" and r: "exec_calls cs s1 = Inr t"
    by (auto split: sum.splits)
  have fr: "\<forall>f. c = Register f \<longrightarrow> f = NULL \<or> \<not> is_registered f s"
    using Cons.prems(2) by auto
  have "fresh_calls cs s1"
    using Cons.prems(2) s1 by (cases c) simp_all
  moreover from Cons.prems(1) s1 fr have "no_dup s1" by (rule no_dup_exec_call)
  ultimately show ?case using r by (intro Cons.IH [of s1])
qed

text \<open>
  Claim C8, as the code has it.  \<open>register_func\<close> does not look for the callback in
  the table, so the same callback registered twice is in two slots.
\<close>

theorem register_twice_counterexample:
  "exec_calls [Register (Addr 1), Register (Addr 1)] (bg_man_pthreads_init zero_state)
     = Inr (zero_state\<lparr>funcs := (funcs zero_state)(0 := Addr 1, 1 := Addr 1), max_func := 2,
              cli_cond_signals := 2\<rparr>)
   \<and> \<not> no_dup (zero_state\<lparr>funcs := (funcs zero_state)(0 := Addr 1, 1 := Addr 1),
          max_func := 2, cli_cond_signals := 2\<rparr>)"
proof -
  let ?T = "zero_state\<lparr>funcs := (funcs zero_state)(0 := Addr 1, 1 := Addr 1), max_func := 2,
              cli_cond_signals := 2\<rparr>"
  have i: "bg_man_pthreads_init zero_state = zero_state"
    by (simp add: bg_man_pthreads_init_def init_loop_eq zero_state_def fun_eq_iff)
  have a: "exec_calls [Register (Addr 1), Register (Addr 1)] (bg_man_pthreads_init zero_state)
     = Inr ?T"
    unfolding i
    by (simp add: bg_man_pthreads_register_func_def
        bg_man_pthreads_enable_interrupts_def bg_man_pthreads_disable_interrupts_def
        zero_state_def first_free.simps Let_def)
  have "\<not> no_dup ?T"
  proof
    assume "no_dup ?T"
    then have "(0::int) = 1"
      by (rule no_dupD) simp_all
    then show False by simp
  qed
  with a show ?thesis by blast
qed

text \<open>
  Claim C8, amended.  After the initialisation no callback is in two slots, and this
  stays so along every sequence of calls in which each registration is made with a
  callback that is in no slot at that moment.  Every unregistration keeps the property,
  on either path; a registration that yields a state keeps it when its callback is in
  no slot (or is \<open>NULL\<close>).
\<close>

theorem no_dup_fresh_calls:
  "(fresh_calls cs (bg_man_pthreads_init s0) \<and> exec_calls cs (bg_man_pthreads_init s0) = Inr s
      \<longrightarrow> no_dup s)
   \<and> (\<forall>t busy f. no_dup t \<longrightarrow> no_dup (snd (bg_man_pthreads_unregister_func busy f t)))
   \<and> (\<forall>t f r t'. no_dup t \<and> (f = NULL \<or> \<not> is_registered f t)
          \<and> bg_man_pthreads_register_func f t = Inr (r, t')
        \<longrightarrow> no_dup t')"
proof (intro conjI allI impI)
  assume "fresh_calls cs (bg_man_pthreads_init s0)
    \<and> exec_calls cs (bg_man_pthreads_init s0) = Inr s"
  then show "no_dup s"
    using no_dup_exec_calls [OF no_dup_init] by blast
next
  fix t busy f
  assume "no_dup t"
  then show "no_dup (snd (bg_man_pthreads_unregister_func busy f t))"
    by (rule no_dup_unregister)
next
  fix t f r t'
  assume "no_dup t \<and> (f = NULL \<or> \<not> is_registered f t)
          \<and> bg_man_pthreads_register_func f t = Inr (r, t')"
  then show "no_dup t'"
    using no_dup_register by blast
qed

text \<open>
  Two callbacks are registered, the first is removed and registered again: it is in
  one slot only.
\<close>

theorem no_dup_fresh_calls_witness:
  "fresh_calls [Register (Addr 1), Register (Addr 2), Unregister False (Addr 1),
      Register (Addr 1)] (bg_man_pthreads_init zero_state)
   \<and> exec_calls [Register (Addr 1), Register (Addr 2), Unregister False (Addr 1),
        Register (Addr 1)] (bg_man_pthreads_init zero_state)
       = Inr (zero_state\<lparr>funcs := (funcs zero_state)(0 := Addr 1, 1 := Addr 2, 0 := NULL,
                0 := Addr 1), max_func := 2, cli_cond_signals := 3\<rparr>)
   \<and> no_dup (zero_state\<lparr>funcs := (funcs zero_state)(0 := Addr 1, 1 := Addr 2, 0 := NULL,
         0 := Addr 1), max_func := 2, cli_cond_signals := 3\<rparr>)
   \<and> no_dup gap_state
   \<and> no_dup (snd (bg_man_pthreads_unregister_func False (Addr 2) gap_state))
   \<and> \<not> is_registered (Addr 5) gap_state
   \<and> bg_man_pthreads_register_func (Addr 5) gap_state
       = Inr (0, gap_state\<lparr>funcs := (funcs gap_state)(1 := Addr 5), max_func := 4,
                   cli_cond_signals := 1\<rparr>)
   \<and> no_dup (gap_state\<lparr>funcs := (funcs gap_state)(1 := Addr 5), max_func := 4,
         cli_cond_signals := 1\<rparr>)"
proof -
  let ?cs = "[Register (Addr 1), Register (Addr 2), Unregister False (Addr 1), Register (Addr 1)]"
  let ?T = "zero_state\<lparr>funcs := (funcs zero_state)(0 := Addr 1, 1 := Addr 2, 0 := NULL,
                0 := Addr 1), max_func := 2, cli_cond_signals := 3\<rparr>"
  note t = no_dup_fresh_calls [of ?cs zero_state ?T]
  have i: "bg_man_pthreads_init zero_state = zero_state"
    by (simp add: bg_man_pthreads_init_def init_loop_eq zero_state_def fun_eq_iff)
  have f: "fresh_calls ?cs (bg_man_pthreads_init zero_state)"
    unfolding i
    by (simp add: is_registered_iff bg_man_pthreads_register_func_def
        bg_man_pthreads_unregister_func_def really_unregister_func_def
        bg_man_pthreads_enable_interrupts_def bg_man_pthreads_disable_interrupts_def
        zero_state_def first_free.simps find_func.simps shrink_max_func.simps Let_def)
  have e: "exec_calls ?cs (bg_man_pthreads_init zero_state) = Inr ?T"
    unfolding i
    by (simp add: bg_man_pthreads_register_func_def
        bg_man_pthreads_unregister_func_def really_unregister_func_def
        bg_man_pthreads_enable_interrupts_def bg_man_pthreads_disable_interrupts_def
        zero_state_def first_free.simps find_func.simps shrink_max_func.simps Let_def)
  have g: "no_dup gap_state"
    by (rule no_dupI) (auto simp: gap_state_def zero_state_def split: if_splits)
  have n: "\<not> is_registered (Addr 5) gap_state"
    by (simp add: is_registered_iff gap_state_def zero_state_def)
  have r: "bg_man_pthreads_register_func (Addr 5) gap_state
       = Inr (0, gap_state\<lparr>funcs := (funcs gap_state)(1 := Addr 5), max_func := 4,
                   cli_cond_signals := 1\<rparr>)"
    by (simp add: bg_man_pthreads_register_func_def
        bg_man_pthreads_enable_interrupts_def bg_man_pthreads_disable_interrupts_def
        gap_state_def zero_state_def first_free.simps Let_def)
  from t f e g n r show ?thesis by blast
qed

section \<open>Removing the stale functions\<close>

lemma really_unregister_func_stale:
  "really_unregister_func f (s\<lparr>stale_funcs := x\<rparr>)
     = (fst (really_unregister_func f s), (snd (really_unregister_func f s))\<lparr>stale_funcs := x\<rparr>)"
  by (simp add: really_unregister_func_def Let_def)

lemma stale_funcs_really_unregister [simp]:
  "stale_funcs (snd (really_unregister_func f s)) = stale_funcs s"
  by (simp add: really_unregister_func_def Let_def)

lemma unregister_list_stale:
  "unregister_list fs (s\<lparr>stale_funcs := x\<rparr>) = (unregister_list fs s)\<lparr>stale_funcs := x\<rparr>"
  unfolding unregister_list_def
  by (induction fs arbitrary: s) (simp_all add: really_unregister_func_stale)

lemma unregister_list_Cons:
  "unregister_list (f # fs) s = unregister_list fs (snd (really_unregister_func f s))"
  by (simp add: unregister_list_def)

lemma stale_funcs_unregister_list [simp]:
  "stale_funcs (unregister_list fs s) = stale_funcs s"
  unfolding unregister_list_def
  by (induction fs arbitrary: s) simp_all

lemma really_unregister_func_not_found:
  "fst (really_unregister_func f t) = - 1 \<Longrightarrow> snd (really_unregister_func f t) = t"
  by (simp add: really_unregister_func_def Let_def split: if_splits)

lemma stale_inv_first_empty:
  assumes "stale_inv s" and "0 \<le> k" and "stale_funcs s k = NULL"
    and "0 \<le> i" and "i < MAX_FUNCS" and "stale_funcs s i \<noteq> NULL"
  shows "i < k"
proof (rule ccontr)
  assume "\<not> i < k"
  with assms(3,6) have "k < i" by (cases "i = k") auto
  with assms(1,2,3,5) have "stale_funcs s i = NULL"
    unfolding stale_inv_iff by blast
  with assms(6) show False by simp
qed

lemma stale_inv_same:
  "stale_inv s \<Longrightarrow> stale_funcs t = stale_funcs s \<Longrightarrow> stale_inv t"
  by (simp add: stale_inv_iff)

lemma stale_invD:
  assumes "stale_inv s" and "0 \<le> i" "i < j" "j < MAX_FUNCS" and "stale_funcs s i = NULL"
  shows "stale_funcs s j = NULL"
proof -
  from assms(1) have "0 \<le> i \<and> i < j \<and> j < MAX_FUNCS \<and> stale_funcs s i = NULL
        \<longrightarrow> stale_funcs s j = NULL"
    unfolding stale_inv_iff by (elim allE)
  with assms(2-) show ?thesis by (elim impE) (intro conjI)
qed

lemma stale_inv_insert:
  assumes "stale_inv s"
  shows "stale_inv (s\<lparr>stale_funcs := stale_insert (stale_funcs s) f 0\<rparr>)"
proof (cases "\<forall>i. 0 \<le> i \<and> i < MAX_FUNCS \<longrightarrow> stale_funcs s i \<noteq> NULL")
  case True
  then have "stale_insert (stale_funcs s) f 0 = stale_funcs s"
    by (intro stale_insert_full) auto
  then have "stale_funcs (s\<lparr>stale_funcs := stale_insert (stale_funcs s) f 0\<rparr>) = stale_funcs s"
    by simp
  with assms show ?thesis by (rule stale_inv_same)
next
  case False
  then obtain i where "0 \<le> i" "i < MAX_FUNCS" "stale_funcs s i = NULL" by blast
  then obtain k where k: "0 \<le> k" "k < MAX_FUNCS" "stale_funcs s k = NULL"
    "\<forall>j. 0 \<le> j \<and> j < k \<longrightarrow> stale_funcs s j \<noteq> NULL"
    using first_empty_slot [of i "stale_funcs s"] by blast
  have "stale_insert (stale_funcs s) f 0 = (stale_funcs s)(k := f)"
    using k by (intro stale_insert_at) auto
  then have ins: "stale_funcs (s\<lparr>stale_funcs := stale_insert (stale_funcs s) f 0\<rparr>) x
                    = (if x = k then f else stale_funcs s x)" for x
    by simp
  show ?thesis
    unfolding stale_inv_iff
  proof (intro allI impI)
    fix i j
    assume a: "0 \<le> i \<and> i < j \<and> j < MAX_FUNCS
      \<and> stale_funcs (s\<lparr>stale_funcs := stale_insert (stale_funcs s) f 0\<rparr>) i = NULL"
    then have i: "0 \<le> i" "i < j" "j < MAX_FUNCS"
      and n: "(if i = k then f else stale_funcs s i) = NULL"
      unfolding ins by blast+
    have "k \<le> i"
    proof (rule ccontr)
      assume "\<not> k \<le> i"
      then have "i < k" and "i \<noteq> k" by simp_all
      with i(1) k(4) have "stale_funcs s i \<noteq> NULL" by blast
      with n \<open>i \<noteq> k\<close> show False by simp
    qed
    with i have "k < j" by simp
    with assms k(1) have "stale_funcs s j = NULL"
      using i(3) k(3) by (rule stale_invD)
    with \<open>k < j\<close> show "stale_funcs (s\<lparr>stale_funcs := stale_insert (stale_funcs s) f 0\<rparr>) j = NULL"
      unfolding ins by simp
  qed
qed

lemma registry_inv_unregister_list:
  "registry_inv s \<Longrightarrow> registry_inv (unregister_list fs s)"
  unfolding unregister_list_def
  by (induction fs arbitrary: s) (simp_all add: registry_inv_really_unregister)

text \<open>
  The loop started at \<open>n\<close>, when \<open>k\<close> is the first empty cell from \<open>n\<close> on and lies in
  the array: it ends there, it has unregistered the callbacks of the cells \<open>n\<close>, ...,
  \<open>k - 1\<close> in this order and emptied these cells.
\<close>

lemma reap_loop_run:
  assumes "0 \<le> n" and "n \<le> k" and "k < MAX_FUNCS" and "stale_funcs s k = NULL"
    and "\<forall>i. n \<le> i \<and> i < k \<longrightarrow> stale_funcs s i \<noteq> NULL"
  shows "reap_loop n s =
           Inr ((unregister_list (map (stale_funcs s) [n..k - 1]) s)
                  \<lparr>stale_funcs := (\<lambda>i. if n \<le> i \<and> i < k then NULL else stale_funcs s i)\<rparr>)"
  using assms
proof (induction "nat (k - n)" arbitrary: n s)
  case 0
  then have nk: "n = k" by simp
  have "(\<lambda>i. if k \<le> i \<and> i < k then NULL else stale_funcs s i) = stale_funcs s"
    by (auto simp: fun_eq_iff)
  with "0.prems"(1,3,4) show ?case
    unfolding nk by (subst reap_loop.simps) (simp add: unregister_list_def)
next
  case (Suc d)
  then have lt: "n < k" by simp
  with Suc.prems have occ: "stale_funcs s n \<noteq> NULL" by simp
  have inb: "0 \<le> n \<and> n < MAX_FUNCS" using Suc.prems(1,3) lt by simp
  let ?f = "stale_funcs s n"
  let ?s1 = "snd (really_unregister_func ?f s)"
  let ?s2 = "?s1\<lparr>stale_funcs := (stale_funcs s)(n := NULL)\<rparr>"
  have step: "reap_loop n s = reap_loop (n + 1) ?s2"
    using occ inb by (subst reap_loop.simps) (simp add: Let_def)
  have IH: "reap_loop (n + 1) ?s2 =
           Inr ((unregister_list (map (stale_funcs ?s2) [n + 1..k - 1]) ?s2)
                  \<lparr>stale_funcs := (\<lambda>i. if n + 1 \<le> i \<and> i < k then NULL else stale_funcs ?s2 i)\<rparr>)"
  proof (rule Suc.hyps(1))
    show "d = nat (k - (n + 1))" using Suc.hyps(2) by simp
    show "0 \<le> n + 1" using Suc.prems(1) by simp
    show "n + 1 \<le> k" using lt by simp
    show "k < MAX_FUNCS" by (rule Suc.prems(3))
    show "stale_funcs ?s2 k = NULL" using Suc.prems(4) by simp
    show "\<forall>i. n + 1 \<le> i \<and> i < k \<longrightarrow> stale_funcs ?s2 i \<noteq> NULL"
      using Suc.prems(5) by simp
  qed
  have m: "map (stale_funcs ?s2) [n + 1..k - 1] = map (stale_funcs s) [n + 1..k - 1]"
    by simp
  have u: "[n..k - 1] = n # [n + 1..k - 1]"
    using lt by (simp add: upto_rec1)
  have c: "(\<lambda>i. if n + 1 \<le> i \<and> i < k then NULL else stale_funcs ?s2 i)
         = (\<lambda>i. if n \<le> i \<and> i < k then NULL else stale_funcs s i)"
    using lt by (auto simp: fun_eq_iff)
  have st: "(unregister_list (map (stale_funcs ?s2) [n + 1..k - 1]) ?s2)
                   \<lparr>stale_funcs := (\<lambda>i. if n + 1 \<le> i \<and> i < k then NULL else stale_funcs ?s2 i)\<rparr>
          = (unregister_list (map (stale_funcs s) [n..k - 1]) s)
                   \<lparr>stale_funcs := (\<lambda>i. if n \<le> i \<and> i < k then NULL else stale_funcs s i)\<rparr>"
    unfolding m c u by (simp add: unregister_list_stale unregister_list_Cons)
  show ?case
    unfolding step IH st ..
qed

text \<open>
  The loop started at \<open>n\<close>, when every slot from \<open>n\<close> on is occupied: it reads
  \<open>stale_funcs[MAX_FUNCS]\<close>.
\<close>

lemma reap_loop_full:
  assumes "0 \<le> n" and "n \<le> MAX_FUNCS"
    and "\<forall>i. n \<le> i \<and> i < MAX_FUNCS \<longrightarrow> stale_funcs s i \<noteq> NULL"
  shows "reap_loop n s = Inl (StaleFuncsOutOfBounds MAX_FUNCS)"
  using assms
proof (induction "nat (MAX_FUNCS - n)" arbitrary: n s)
  case 0
  then have "n = MAX_FUNCS" by simp
  then show ?case by (subst reap_loop.simps) simp
next
  case (Suc d)
  then have inb: "0 \<le> n \<and> n < MAX_FUNCS" by simp
  with Suc.prems(3) have occ: "stale_funcs s n \<noteq> NULL" by simp
  let ?s2 = "(snd (really_unregister_func (stale_funcs s n) s))
               \<lparr>stale_funcs := (stale_funcs s)(n := NULL)\<rparr>"
  have step: "reap_loop n s = reap_loop (n + 1) ?s2"
    using occ inb by (subst reap_loop.simps) (simp add: Let_def)
  have "reap_loop (n + 1) ?s2 = Inl (StaleFuncsOutOfBounds MAX_FUNCS)"
  proof (rule Suc.hyps(1))
    show "d = nat (MAX_FUNCS - (n + 1))" using Suc.hyps(2) by simp
    show "0 \<le> n + 1" using inb by simp
    show "n + 1 \<le> MAX_FUNCS" using inb by simp
    show "\<forall>i. n + 1 \<le> i \<and> i < MAX_FUNCS \<longrightarrow> stale_funcs ?s2 i \<noteq> NULL"
      using Suc.prems(3) by simp
  qed
  with step show ?case by simp
qed

text \<open>
  The queue is in the shape the calls keep it in (\<open>stale_inv\<close>: the occupied slots come
  first) and has an empty slot; \<open>k\<close> is the first one.  Then the loop ends without a
  fault; the state it leaves is the one obtained by calling \<open>really_unregister_func\<close>
  for the callbacks of the slots 0, ..., \<open>k - 1\<close> in this order, the return values
  ignored, and emptying these slots.  Every occupied slot of the queue is among them,
  and afterwards all 16 slots of the queue are empty.
\<close>

lemma remove_stale_funcs_run:
  assumes "stale_inv s" and "0 \<le> k" and "k < MAX_FUNCS" and "stale_funcs s k = NULL"
    and "\<forall>i. 0 \<le> i \<and> i < k \<longrightarrow> stale_funcs s i \<noteq> NULL"
  shows "remove_stale_funcs s =
           Inr ((unregister_list (map (stale_funcs s) [0..k - 1]) s)
                  \<lparr>stale_funcs := (\<lambda>i. if 0 \<le> i \<and> i < k then NULL else stale_funcs s i)\<rparr>)"
    and "\<forall>i. 0 \<le> i \<and> i < MAX_FUNCS \<and> stale_funcs s i \<noteq> NULL \<longrightarrow> i < k"
    and "\<forall>i. 0 \<le> i \<and> i < MAX_FUNCS \<longrightarrow>
           (if 0 \<le> i \<and> i < k then NULL else stale_funcs s i) = NULL"
proof -
  show "remove_stale_funcs s =
           Inr ((unregister_list (map (stale_funcs s) [0..k - 1]) s)
                  \<lparr>stale_funcs := (\<lambda>i. if 0 \<le> i \<and> i < k then NULL else stale_funcs s i)\<rparr>)"
    unfolding remove_stale_funcs_def
    by (rule reap_loop_run) (use assms in simp_all)
  show occ: "\<forall>i. 0 \<le> i \<and> i < MAX_FUNCS \<and> stale_funcs s i \<noteq> NULL \<longrightarrow> i < k"
    using stale_inv_first_empty [OF assms(1,2,4)] by blast
  then show "\<forall>i. 0 \<le> i \<and> i < MAX_FUNCS \<longrightarrow>
           (if 0 \<le> i \<and> i < k then NULL else stale_funcs s i) = NULL"
    by auto
qed

text \<open>The full queue: the loop reads past the array.\<close>

lemma remove_stale_funcs_full:
  assumes "\<forall>i. 0 \<le> i \<and> i < MAX_FUNCS \<longrightarrow> stale_funcs s i \<noteq> NULL"
  shows "remove_stale_funcs s = Inl (StaleFuncsOutOfBounds MAX_FUNCS)"
  unfolding remove_stale_funcs_def
  using assms by (intro reap_loop_full) simp_all

text \<open>The shape of the queue that the loop relies on is kept by every call.\<close>

lemma stale_inv_exec_call:
  assumes "stale_inv s" and "exec_call c s = Inr t"
  shows "stale_inv t"
proof (cases c)
  case (Register f)
  with assms(2) obtain r where r: "bg_man_pthreads_register_func f s = Inr (r, t)"
    by (auto split: sum.splits)
  with register_func_cases [of f s] have "stale_funcs t = stale_funcs s" by auto
  with assms(1) show ?thesis by (rule stale_inv_same)
next
  case (Unregister busy f)
  show ?thesis
  proof (cases "busy \<and> find_func (funcs s) (max_func s) f 0 \<noteq> max_func s")
    case True
    with Unregister assms(2) have "t = s\<lparr>stale_funcs := stale_insert (stale_funcs s) f 0\<rparr>"
      by (auto simp: bg_man_pthreads_unregister_func_def)
    with assms(1) show ?thesis by (simp add: stale_inv_insert)
  next
    case False
    with Unregister assms(2) have "stale_funcs t = stale_funcs s"
      by (auto simp: bg_man_pthreads_unregister_func_def)
    with assms(1) show ?thesis by (rule stale_inv_same)
  qed
next
  case Enable
  with assms(2) gate_fields(1) [of s t] have "stale_funcs t = stale_funcs s" by simp
  with assms(1) show ?thesis by (rule stale_inv_same)
next
  case Disable
  with assms(2) gate_fields(2) [of s t] have "stale_funcs t = stale_funcs s" by simp
  with assms(1) show ?thesis by (rule stale_inv_same)
qed

lemma stale_inv_exec_calls:
  "stale_inv s \<Longrightarrow> exec_calls cs s = Inr t \<Longrightarrow> stale_inv t"
proof (induction cs arbitrary: s)
  case Nil
  then show ?case by simp
next
  case (Cons c cs)
  from Cons.prems(2) obtain s1 where s1: "exec_call c s = Inr s1" and r: "exec_calls cs s1 = Inr t"
    by (auto split: sum.splits)
  from Cons.prems(1) s1 have "stale_inv s1" by (rule stale_inv_exec_call)
  then show ?case using r by (rule Cons.IH)
qed

lemma stale_inv_reachable:
  "exec_calls cs (bg_man_pthreads_init s0) = Inr s \<Longrightarrow> stale_inv s"
proof -
  have "stale_inv (bg_man_pthreads_init s0)"
    by (simp add: stale_inv_iff init_funcs)
  then show "exec_calls cs (bg_man_pthreads_init s0) = Inr s \<Longrightarrow> stale_inv s"
    by (rule stale_inv_exec_calls)
qed

text \<open>
  A loop that ends without a fault keeps the invariant of the table and leaves the
  queue empty, hence in the shape it relies on.
\<close>

lemma remove_stale_funcs_inv:
  assumes "stale_inv s" and "registry_inv s"
    and "0 \<le> k" and "k < MAX_FUNCS" and "stale_funcs s k = NULL"
    and "\<forall>i. 0 \<le> i \<and> i < k \<longrightarrow> stale_funcs s i \<noteq> NULL"
  shows "\<exists>t. remove_stale_funcs s = Inr t \<and> stale_inv t \<and> registry_inv t"
proof -
  let ?u = "unregister_list (map (stale_funcs s) [0..k - 1]) s"
  let ?c = "\<lambda>i. if 0 \<le> i \<and> i < k then NULL else stale_funcs s i"
  note run = remove_stale_funcs_run [OF assms(1,3,4,5,6)]
  have "registry_inv ?u"
    using assms(2) by (rule registry_inv_unregister_list)
  then have ri: "registry_inv (?u\<lparr>stale_funcs := ?c\<rparr>)"
    by (simp add: registry_inv_iff)
  from run(3) have "stale_inv (?u\<lparr>stale_funcs := ?c\<rparr>)"
    unfolding stale_inv_iff by simp
  with run(1) ri show ?thesis by blast
qed

text \<open>
  The table has callbacks in the slots 0 and 3; the queue asks for the callback of
  slot 3 and for a callback that is not in the table.  After the loop only slot 0 is
  occupied, \<open>max_func\<close> is 1 and the queue is empty.
\<close>

lemma remove_stale_funcs_two:
  "remove_stale_funcs stale_two_state =
     Inr (stale_two_state\<lparr>funcs := (funcs gap_state)(3 := NULL), max_func := 1,
            stale_funcs := (\<lambda>i. NULL)\<rparr>)"
proof -
  have h1: "stale_inv stale_two_state"
    unfolding stale_inv_iff by (simp add: stale_two_state_def)
  have h3: "stale_funcs stale_two_state 2 = NULL"
    by (simp add: stale_two_state_def)
  have h4: "\<forall>i. 0 \<le> i \<and> i < 2 \<longrightarrow> stale_funcs stale_two_state i \<noteq> NULL"
    by (simp add: stale_two_state_def)
  have u: "[0..2 - 1] = [0, 1::int]"
    by (simp add: upto_rec1)
  have c: "(\<lambda>i. if 0 \<le> i \<and> i < 2 then NULL else stale_funcs stale_two_state i) = (\<lambda>i. NULL)"
    by (auto simp: fun_eq_iff stale_two_state_def gap_state_def zero_state_def)
  have l: "unregister_list (map (stale_funcs stale_two_state) [0, 1]) stale_two_state
         = stale_two_state\<lparr>funcs := (funcs gap_state)(3 := NULL), max_func := 1\<rparr>"
    by (simp add: unregister_list_def stale_two_state_def gap_state_def zero_state_def
        really_unregister_func_def find_func.simps shrink_max_func.simps Let_def)
  show ?thesis
    using remove_stale_funcs_run(1) [OF h1 _ _ h3 h4] unfolding u c l by simp
qed

text \<open>
  Claim C6, as the code has it.  A callback is registered and, while the driver thread
  holds \<open>cli_mutex\<close>, unregistered 16 times: each call finds it in the table, returns 0
  and puts it in the next slot of the queue, whose 16 slots are then occupied.  The
  loop of the driver thread that follows has no test of \<open>n\<close> against \<open>MAX_FUNCS\<close>: having
  emptied the 16 slots it reads \<open>stale_funcs[MAX_FUNCS]\<close>, an access outside the array,
  and the drain does not complete as described.
\<close>

theorem remove_stale_funcs_full_queue:
  "map_sum id (\<lambda>q. (map (stale_funcs q) [0..15], remove_stale_funcs q))
     (exec_calls (Register (Addr 1) # replicate 16 (Unregister True (Addr 1)))
        (bg_man_pthreads_init zero_state))
   = Inr (replicate 16 (Addr 1), Inl (StaleFuncsOutOfBounds MAX_FUNCS))"
proof -
  let ?cs = "Register (Addr 1) # replicate 16 (Unregister True (Addr 1))"
  have i: "bg_man_pthreads_init zero_state = zero_state"
    by (auto simp add: bg_man_pthreads_init_def init_loop_eq zero_state_def fun_eq_iff)
  have r: "bg_man_pthreads_register_func (Addr 1) zero_state
             = Inr (0, zero_state\<lparr>funcs := (funcs zero_state)(0 := Addr 1), max_func := 1,
                      cli_cond_signals := 1\<rparr>)"
    using register_func_free [of 0 zero_state "Addr 1"] by (simp add: zero_state_def)
  have "\<exists>q. exec_calls ?cs (bg_man_pthreads_init zero_state) = Inr q
          \<and> map (stale_funcs q) [0..15] = replicate 16 (Addr 1)
          \<and> (\<forall>i. 0 \<le> i \<and> i < MAX_FUNCS \<longrightarrow> stale_funcs q i \<noteq> NULL)"
    unfolding i exec_calls.simps exec_call.simps r
    by (simp add: numeral_eq_Suc bg_man_pthreads_unregister_func_def find_func.simps
        stale_insert.simps zero_state_def upto_rec1) arith
  then obtain q where q: "exec_calls ?cs (bg_man_pthreads_init zero_state) = Inr q"
    and m: "map (stale_funcs q) [0..15] = replicate 16 (Addr 1)"
    and f: "\<forall>i. 0 \<le> i \<and> i < MAX_FUNCS \<longrightarrow> stale_funcs q i \<noteq> NULL"
    by blast
  from f have "remove_stale_funcs q = Inl (StaleFuncsOutOfBounds MAX_FUNCS)"
    by (rule remove_stale_funcs_full)
  with q m show ?thesis by simp
qed

section \<open>The scans and the ends of the arrays\<close>

text \<open>
  Claim C10, as the code has it.  With the 16 slots of \<open>funcs\<close> occupied, the scan of
  \<open>register_func\<close> goes through the cells 0, ..., 15 and then evaluates
  \<open>funcs[MAX_FUNCS]\<close>, before it compares \<open>i\<close> with \<open>MAX_FUNCS\<close>: a read past the end of
  the array.  With the 16 slots of \<open>stale_funcs\<close> occupied, the loop of the driver
  thread goes through the cells 0, ..., 15 and then evaluates \<open>stale_funcs[MAX_FUNCS]\<close>
  as well.  The fault carries the index of the access.
\<close>

theorem sentinel_scans_read_past_end:
  "first_free (funcs full_state) 0 = Inl (FuncsOutOfBounds MAX_FUNCS)
   \<and> remove_stale_funcs stale_full_state = Inl (StaleFuncsOutOfBounds MAX_FUNCS)"
proof -
  have "\<forall>j. 0 \<le> j \<and> j < MAX_FUNCS \<longrightarrow> funcs full_state j \<noteq> NULL"
    by (simp add: full_state_def zero_state_def)
  then have a: "first_free (funcs full_state) 0 = Inl (FuncsOutOfBounds MAX_FUNCS)"
    by (intro first_free_full) simp_all
  have b: "remove_stale_funcs stale_full_state = Inl (StaleFuncsOutOfBounds MAX_FUNCS)"
    by (rule remove_stale_funcs_full) (simp add: stale_full_state_def)
  from a b show ?thesis ..
qed

section \<open>Converting the elapsed time into ticks\<close>

lemma div_add_lower:
  fixes a b c :: nat
  shows "a div c + b div c \<le> (a + b) div c"
  by (subst div_add1_eq) simp

lemma div_add_upper:
  fixes a b c :: nat
  assumes "0 < c"
  shows "(a + b) div c \<le> a div c + b div c + 1"
proof -
  have "a mod c + b mod c < c + c"
    using assms by (intro add_strict_mono) simp_all
  then have "a mod c + b mod c < 2 * c" by simp
  then have "(a mod c + b mod c) div c < 2"
    by (rule less_mult_imp_div_less)
  then show ?thesis by (subst div_add1_eq) simp
qed

text \<open>One turn of the loop, and its end.\<close>

lemma interval_loop_end: "interval_loop tps 0 ticks = Some ticks"
  by (subst interval_loop.simps) simp

lemma interval_loop_turn:
  "interval \<noteq> 0 \<Longrightarrow>
     interval_loop tps interval ticks =
       interval_loop tps (interval - min interval (INT_MAX div (tps div 100)))
         (ticks @ [min interval (INT_MAX div (tps div 100)) * (tps div 100) div 10000])"
  by (subst interval_loop.simps) (simp add: Let_def)

text \<open>The product of line 88 never exceeds \<open>INT_MAX\<close>: this is what the chunks are for.\<close>

lemma chunk_product_bound:
  fixes n k :: nat
  shows "min n (INT_MAX div k) * k \<le> INT_MAX"
proof -
  have "min n (INT_MAX div k) * k \<le> (INT_MAX div k) * k"
    by (rule mult_le_mono1) (rule min.cobounded2)
  also have "\<dots> \<le> INT_MAX"
    by (rule div_times_less_eq_dividend)
  finally show ?thesis .
qed

text \<open>
  With a chunk of at least one microsecond the loop ends.  The ticks of its turns add
  up to at most \<open>interval * (tps div 100) div 10000\<close> and miss this number by less than
  the number of turns: each turn drops the remainder of its own division.
\<close>

lemma chunk_positive:
  fixes n c :: nat
  shows "n \<noteq> 0 \<Longrightarrow> 0 < c \<Longrightarrow> 0 < min n c \<and> min n c \<le> n"
  by simp

lemma rest_smaller:
  fixes n i :: nat
  shows "0 < i \<Longrightarrow> i \<le> n \<Longrightarrow> n - i < n"
  by simp

lemma last_chunk:
  fixes n i :: nat
  shows "n - i = 0 \<Longrightarrow> i \<le> n \<Longrightarrow> i = n"
  by simp

lemma interval_loop_run:
  assumes "0 < INT_MAX div (tps div 100)"
  shows "\<exists>ts. interval_loop tps interval ticks = Some (ticks @ ts)
           \<and> sum_list ts \<le> interval * (tps div 100) div 10000
           \<and> (0 < interval \<longrightarrow> interval * (tps div 100) div 10000 < sum_list ts + length ts)
           \<and> (interval = 0 \<longrightarrow> ts = [])"
proof (induction interval arbitrary: ticks rule: less_induct)
  case (less n)
  show ?case
  proof (cases "n = 0")
    case True
    then show ?thesis by (simp add: interval_loop_end)
  next
    case False
    define k where "k = tps div 100"
    define i where "i = min n (INT_MAX div k)"
    define t where "t = i * k div 10000"
    define e where "e = (n - i) * k div 10000"
    define E where "E = n * k div 10000"
    have "0 < i \<and> i \<le> n"
      unfolding i_def k_def using False assms by (rule chunk_positive)
    then have i: "0 < i" "i \<le> n" by blast+
    then have "n - i < n" by (rule rest_smaller)
    from less.IH [OF this, of "ticks @ [t]"]
    have "\<exists>ts. interval_loop tps (n - i) (ticks @ [t]) = Some ((ticks @ [t]) @ ts)
           \<and> sum_list ts \<le> e
           \<and> (0 < n - i \<longrightarrow> e < sum_list ts + length ts)
           \<and> (n - i = 0 \<longrightarrow> ts = [])"
      unfolding e_def k_def .
    then obtain ts where all: "interval_loop tps (n - i) (ticks @ [t]) = Some ((ticks @ [t]) @ ts)
           \<and> sum_list ts \<le> e
           \<and> (0 < n - i \<longrightarrow> e < sum_list ts + length ts)
           \<and> (n - i = 0 \<longrightarrow> ts = [])" ..
    note r = all [THEN conjunct1]
    note lo = all [THEN conjunct2, THEN conjunct1]
    note hi = all [THEN conjunct2, THEN conjunct2, THEN conjunct1]
    note em = all [THEN conjunct2, THEN conjunct2, THEN conjunct2]
    have "(i + (n - i)) * k = i * k + (n - i) * k"
      by (rule add_mult_distrib)
    moreover have "i + (n - i) = n"
      using i(2) by (rule le_add_diff_inverse)
    ultimately have split: "n * k = i * k + (n - i) * k"
      by simp
    have "interval_loop tps n ticks = interval_loop tps (n - i) (ticks @ [t])"
      unfolding i_def t_def k_def by (rule interval_loop_turn [OF False])
    then have a: "interval_loop tps n ticks = Some (ticks @ (t # ts))"
      unfolding r by simp
    have lower: "t + e \<le> E"
      unfolding E_def split t_def e_def by (rule div_add_lower)
    have upper: "E \<le> t + e + 1"
      unfolding E_def split t_def e_def by (rule div_add_upper) simp
    have b: "sum_list (t # ts) \<le> E"
      using lower lo by simp
    have c: "E < sum_list (t # ts) + length (t # ts)"
    proof (cases "n - i = 0")
      case True
      with em have "ts = []" by simp
      moreover from True i(2) have "i = n" by (rule last_chunk)
      then have "E = t" by (simp add: E_def t_def)
      ultimately show ?thesis by simp
    next
      case False
      with hi have "e < sum_list ts + length ts" by simp
      with upper show ?thesis by simp
    qed
    have "interval_loop tps n ticks = Some (ticks @ (t # ts))
           \<and> sum_list (t # ts) \<le> E
           \<and> (0 < n \<longrightarrow> E < sum_list (t # ts) + length (t # ts))
           \<and> (n = 0 \<longrightarrow> t # ts = [])"
      using a b c False by simp
    then show ?thesis
      unfolding E_def k_def by (rule exI)
  qed
qed

lemma chunk_limit_positive:
  assumes "100 \<le> tps" and "tps div 100 \<le> INT_MAX"
  shows "tps div 100 \<noteq> 0" and "0 < INT_MAX div (tps div 100)"
proof -
  from assms(1) have "100 div 100 \<le> tps div 100" by (rule div_le_mono)
  then show k: "tps div 100 \<noteq> 0" by simp
  with assms(2) show "0 < INT_MAX div (tps div 100)"
    by (simp add: div_greater_zero_iff)
qed

lemma tick_batches_run:
  assumes "100 \<le> tps" and "tps div 100 \<le> INT_MAX"
  shows "\<exists>ts. tick_batches tps x = Some ts
           \<and> sum_list ts \<le> ticks_of tps x
           \<and> (0 < x \<longrightarrow> ticks_of tps x < sum_list ts + length ts)
           \<and> (x = 0 \<longrightarrow> ts = [])"
proof -
  have t: "tick_batches tps x = interval_loop tps x []"
    using chunk_limit_positive(1) [OF assms] by (simp add: tick_batches_def)
  from interval_loop_run [OF chunk_limit_positive(2) [OF assms], of x "[]"]
  show ?thesis
    unfolding t ticks_of_def by simp
qed

lemma ticks_of_add_lower: "ticks_of tps a + ticks_of tps b \<le> ticks_of tps (a + b)"
  unfolding ticks_of_def add_mult_distrib by (rule div_add_lower)

lemma ticks_of_add_upper: "ticks_of tps (a + b) \<le> ticks_of tps a + ticks_of tps b + 1"
  unfolding ticks_of_def add_mult_distrib by (rule div_add_upper) simp

lemma ticks_of_0 [simp]: "ticks_of tps 0 = 0"
  by (simp add: ticks_of_def)

lemma sample_run:
  assumes "100 \<le> tps" and "tps div 100 \<le> INT_MAX"
  shows "\<exists>S c. sample_ticks tps xs = Some S \<and> sample_chunks tps xs = Some c
           \<and> S \<le> ticks_of tps (sum_list xs)
           \<and> (0 < sum_list xs \<longrightarrow> ticks_of tps (sum_list xs) < S + c)
           \<and> (sum_list xs = 0 \<longrightarrow> S = 0 \<and> c = 0)"
proof (induction xs)
  case Nil
  show ?case by simp
next
  case (Cons x xs)
  from Cons.IH obtain S c where IH: "sample_ticks tps xs = Some S \<and> sample_chunks tps xs = Some c
           \<and> S \<le> ticks_of tps (sum_list xs)
           \<and> (0 < sum_list xs \<longrightarrow> ticks_of tps (sum_list xs) < S + c)
           \<and> (sum_list xs = 0 \<longrightarrow> S = 0 \<and> c = 0)"
    by (elim exE)
  from tick_batches_run [OF assms, of x] obtain ts where X: "tick_batches tps x = Some ts
           \<and> sum_list ts \<le> ticks_of tps x
           \<and> (0 < x \<longrightarrow> ticks_of tps x < sum_list ts + length ts)
           \<and> (x = 0 \<longrightarrow> ts = [])" ..
  define Ex where "Ex = ticks_of tps x"
  define Er where "Er = ticks_of tps (sum_list xs)"
  define Et where "Et = ticks_of tps (x + sum_list xs)"
  define Sx where "Sx = sum_list ts"
  define cx where "cx = length ts"
  have lower: "Ex + Er \<le> Et"
    unfolding Ex_def Er_def Et_def by (rule ticks_of_add_lower)
  have upper: "Et \<le> Ex + Er + 1"
    unfolding Ex_def Er_def Et_def by (rule ticks_of_add_upper)
  have x1: "Sx \<le> Ex" and x2: "0 < x \<longrightarrow> Ex < Sx + cx" and x3: "x = 0 \<longrightarrow> Sx = 0 \<and> cx = 0"
    using X unfolding Ex_def Sx_def cx_def by simp_all
  have r1: "S \<le> Er" and r2: "0 < sum_list xs \<longrightarrow> Er < S + c"
    and r3: "sum_list xs = 0 \<longrightarrow> S = 0 \<and> c = 0"
    using IH unfolding Er_def by simp_all
  have a: "sample_ticks tps (x # xs) = Some (Sx + S)"
    and b: "sample_chunks tps (x # xs) = Some (cx + c)"
    using X IH unfolding Sx_def cx_def by simp_all
  have c1: "Sx + S \<le> Et"
    using x1 r1 lower by linarith
  have c3: "x + sum_list xs = 0 \<longrightarrow> Sx + S = 0 \<and> cx + c = 0"
    using x3 r3 by simp
  have c2: "0 < x + sum_list xs \<longrightarrow> Et < (Sx + S) + (cx + c)"
  proof
    assume "0 < x + sum_list xs"
    show "Et < (Sx + S) + (cx + c)"
    proof (cases "x = 0")
      case True
      then have "Et = Er" by (simp add: Et_def Er_def)
      moreover from True \<open>0 < x + sum_list xs\<close> have "0 < sum_list xs" by simp
      ultimately show ?thesis using r2 by linarith
    next
      case x: False
      show ?thesis
      proof (cases "sum_list xs = 0")
        case True
        have "Et = Ex" unfolding Et_def Ex_def True by simp
        with x x2 show ?thesis by linarith
      next
        case False
        with x x2 r2 upper show ?thesis by linarith
      qed
    qed
  qed
  have "sample_ticks tps (x # xs) = Some (Sx + S) \<and> sample_chunks tps (x # xs) = Some (cx + c)
           \<and> Sx + S \<le> Et
           \<and> (0 < x + sum_list xs \<longrightarrow> Et < (Sx + S) + (cx + c))
           \<and> (x + sum_list xs = 0 \<longrightarrow> Sx + S = 0 \<and> cx + c = 0)"
    using a b c1 c2 c3 by (intro conjI)
  then show ?case
    unfolding Et_def sum_list.Cons by (intro exI)
qed

text \<open>
  Claim C9, as the code has it.  Each turn of the loop divides by 10000 on its own and
  drops the remainder; nothing carries it to the next turn or to the next measured
  interval.  At 1193181 ticks per second, 15 microseconds measured as three intervals
  of 5 microseconds give 15 ticks, and measured as one interval they give 17 ticks:
  the two differ by two ticks.
\<close>

theorem tick_partition_counterexample:
  "sample_ticks 1193181 [5, 5, 5] = Some 15
   \<and> sample_ticks 1193181 [sum_list [5, 5, 5]] = Some 17"
  by (simp add: tick_batches_def interval_loop_turn interval_loop_end)

text \<open>
  Claim C9, amended.  Let the rate be such that \<open>tps div 100\<close> is at least one and at
  most \<open>INT_MAX\<close>.  Then the loop ends for every interval.  For measured intervals
  \<open>xs\<close> with the sum \<open>T\<close>, let \<open>S\<close> be the ticks of all turns over \<open>xs\<close> and \<open>D\<close> the
  ticks of all turns for \<open>T\<close> measured as one interval.  Neither exceeds
  \<open>T * (tps div 100) div 10000\<close>; \<open>D\<close> exceeds \<open>S\<close> by at most the number of turns made
  for \<open>xs\<close> less one, and \<open>S\<close> exceeds \<open>D\<close> by at most the number of turns made for
  \<open>T\<close> less one.
\<close>

theorem tick_conversion_bounds:
  assumes "100 \<le> tps" and "tps div 100 \<le> INT_MAX"
  shows "\<exists>S D cS cD.
           sample_ticks tps xs = Some S \<and> sample_chunks tps xs = Some cS
         \<and> sample_ticks tps [sum_list xs] = Some D
         \<and> sample_chunks tps [sum_list xs] = Some cD
         \<and> S \<le> ticks_of tps (sum_list xs) \<and> D \<le> ticks_of tps (sum_list xs)
         \<and> D \<le> S + (cS - 1) \<and> S \<le> D + (cD - 1)"
proof -
  define E where "E = ticks_of tps (sum_list xs)"
  from sample_run [OF assms, of xs] obtain S cS where
    s: "sample_ticks tps xs = Some S \<and> sample_chunks tps xs = Some cS
           \<and> S \<le> E \<and> (0 < sum_list xs \<longrightarrow> E < S + cS)
           \<and> (sum_list xs = 0 \<longrightarrow> S = 0 \<and> cS = 0)"
    unfolding E_def by (elim exE)
  from sample_run [OF assms, of "[sum_list xs]"] obtain D cD where
    d: "sample_ticks tps [sum_list xs] = Some D \<and> sample_chunks tps [sum_list xs] = Some cD
           \<and> D \<le> E \<and> (0 < sum_list xs \<longrightarrow> E < D + cD)
           \<and> (sum_list xs = 0 \<longrightarrow> D = 0 \<and> cD = 0)"
    unfolding E_def by (elim exE) simp
  have s1: "S \<le> E" and s2: "0 < sum_list xs \<longrightarrow> E < S + cS"
    and s3: "sum_list xs = 0 \<longrightarrow> S = 0 \<and> cS = 0"
    using s by blast+
  have d1: "D \<le> E" and d2: "0 < sum_list xs \<longrightarrow> E < D + cD"
    and d3: "sum_list xs = 0 \<longrightarrow> D = 0 \<and> cD = 0"
    using d by blast+
  have b: "D \<le> S + (cS - 1) \<and> S \<le> D + (cD - 1)"
  proof (cases "sum_list xs = 0")
    case True
    with s3 d3 show ?thesis by blast
  next
    case False
    then have "0 < sum_list xs" by blast
    with s2 d2 have "E < S + cS" and "E < D + cD" by blast+
    with s1 d1 show ?thesis by linarith
  qed
  have "sample_ticks tps xs = Some S \<and> sample_chunks tps xs = Some cS
         \<and> sample_ticks tps [sum_list xs] = Some D
         \<and> sample_chunks tps [sum_list xs] = Some cD
         \<and> S \<le> E \<and> D \<le> E
         \<and> D \<le> S + (cS - 1) \<and> S \<le> D + (cD - 1)"
    using s d b by blast
  then show ?thesis
    unfolding E_def by (intro exI)
qed

text \<open>
  At 1193181 ticks per second: three intervals of 5 microseconds give 15 ticks in
  three turns, the 15 microseconds as one interval give 17 ticks in one turn, and
  \<open>15 * 11931 div 10000 = 17\<close>.
\<close>

theorem tick_conversion_bounds_witness:
  "(100::nat) \<le> 1193181 \<and> (1193181::nat) div 100 \<le> INT_MAX
   \<and> sample_ticks 1193181 [5, 5, 5] = Some 15 \<and> sample_chunks 1193181 [5, 5, 5] = Some 3
   \<and> sample_ticks 1193181 [sum_list [5, 5, 5]] = Some 17
   \<and> sample_chunks 1193181 [sum_list [5, 5, 5]] = Some 1
   \<and> ticks_of 1193181 (sum_list [5, 5, 5]) = 17
   \<and> (17::nat) \<le> 15 + (3 - 1) \<and> (15::nat) \<le> 17 + (1 - 1)"
proof -
  have h1: "(100::nat) \<le> 1193181" by simp
  have h2: "(1193181::nat) div 100 \<le> INT_MAX" by simp
  have e: "sample_ticks 1193181 [5, 5, 5] = Some 15"
    "sample_chunks 1193181 [5, 5, 5] = Some 3"
    "sample_ticks 1193181 [sum_list [5, 5, 5]] = Some 17"
    "sample_chunks 1193181 [sum_list [5, 5, 5]] = Some 1"
    "ticks_of 1193181 (sum_list [5, 5, 5]) = 17"
    by (simp_all add: tick_batches_def interval_loop_turn interval_loop_end ticks_of_def)
  from tick_conversion_bounds [OF h1 h2, of "[5, 5, 5]"] h1 h2 e show ?thesis
    by simp
qed

end
